theory Spec2Isabelle
  imports Complex_Main "HOL-Library.Word" "HOL-Library.AList" "HOL-Library.List_Lexorder"
    "HOL-Library.Char_ord" "HOL-Library.Product_Lexorder" "HOL-Library.Log_Nat"
begin

unbundle bit_operations_syntax

section \<open>IEEE double arithmetic (Python float, numpy float64)\<close>

text \<open>
  A Python \<open>float\<close> and a numpy \<open>float64\<close> are IEEE 754 doubles. A finite double is
  represented by the rational number it denotes, and an arithmetic operation on doubles is
  the exact operation followed by \<open>double_round\<close>: rounding to the nearest number with a
  53-bit significand, ties to the even significand. The conversion of a Python int to a
  float is \<open>double_round\<close> of the integer. The exponent range is not modelled (no overflow to
  infinity, no subnormal numbers): the numbers computed below are responsibilities
  \<open>1 / (1 + g)\<close>, sums and quotients of them, sample counts and small multiples, all far
  inside the range of normal doubles.
\<close>

definition pow2 :: "int \<Rightarrow> rat" where
  "pow2 e = (if 0 \<le> e then 2 ^ nat e else 1 / 2 ^ nat (- e))"

text \<open>\<open>\<lfloor>log2 x\<rfloor>\<close> for a positive rational, from the bit lengths of numerator and denominator.\<close>

definition float_exponent :: "rat \<Rightarrow> int" where
  "float_exponent x =
     (case quotient_of x of
        (p, q) \<Rightarrow> let e0 = bitlen p - bitlen q in if pow2 e0 \<le> x then e0 else e0 - 1)"

definition round_half_even :: "rat \<Rightarrow> int" where
  "round_half_even q =
     (let f = \<lfloor>q\<rfloor>; r = q - of_int f
      in if r < 1 / 2 then f else if 1 / 2 < r then f + 1 else if even f then f else f + 1)"

definition double_round :: "rat \<Rightarrow> rat" where
  "double_round x =
     (if x = 0 then 0
      else
        let a = \<bar>x\<bar>;
            ulp = pow2 (float_exponent a - 52);
            m = round_half_even (a / ulp)
        in sgn x * of_int m * ulp)"

definition unit_roundoff :: rat where
  "unit_roundoff = 1 / 2 ^ 53"

text \<open>
  The builtin \<open>sum\<close> on floats: it starts from the int \<open>0\<close> and adds the items from left to
  right, each addition rounded. This is the plain loop of CPython up to version 3.11; from
  3.12 on the interpreter also carries a compensation term for the rounding errors of the
  additions, which can change the last bit of the result when an addition is inexact.
\<close>

definition py_sum :: "rat list \<Rightarrow> rat" where
  "py_sum xs = foldl (\<lambda>acc x. double_round (acc + x)) 0 xs"


lemma pow2_powi: "pow2 e = 2 powi e"
  by (simp add: pow2_def power_int_def field_simps)

lemma pow2_pos: "0 < pow2 e"
  by (simp add: pow2_powi)

lemma pow2_shift: "pow2 (e - 52) = pow2 e / 2 ^ 52"
proof -
  have "pow2 (e - 52) = (2::rat) powi e / 2 powi 52"
    unfolding pow2_powi by (rule power_int_diff) simp
  then show ?thesis by (simp add: pow2_powi)
qed

lemma float_exponent_le:
  assumes "0 < x"
  shows "pow2 (float_exponent x) \<le> x"
proof -
  obtain p q where pq: "quotient_of x = (p, q)" by (cases "quotient_of x")
  then have q: "0 < q" and x: "x = of_int p / of_int q"
    by (simp_all add: quotient_of_denom_pos quotient_of_div)
  from assms x q have p: "0 < p" by (simp add: zero_less_divide_iff)
  define e0 where "e0 = bitlen p - bitlen q"
  show ?thesis
  proof (cases "pow2 e0 \<le> x")
    case True
    then show ?thesis by (simp add: float_exponent_def pq e0_def)
  next
    case False
    have bp: "1 \<le> bitlen p" using p bitlen_eq_zero_iff [of p] bitlen_nonneg [of p] by linarith
    have bq: "1 \<le> bitlen q" using q bitlen_eq_zero_iff [of q] bitlen_nonneg [of q] by linarith
    from bitlen_bounds [OF p] have lo: "(2::int) ^ nat (bitlen p - 1) \<le> p" by simp
    from bitlen_bounds [OF q] have hi: "q < (2::int) ^ nat (bitlen q)" by simp
    have lo': "(2::rat) ^ nat (bitlen p - 1) \<le> of_int p"
    proof -
      from lo have "(of_int ((2::int) ^ nat (bitlen p - 1)) :: rat) \<le> of_int p"
        by (simp only: of_int_le_iff)
      then show ?thesis by simp
    qed
    have hi': "(of_int q :: rat) \<le> 2 ^ nat (bitlen q)"
    proof -
      from hi have "(of_int q :: rat) \<le> of_int ((2::int) ^ nat (bitlen q))"
        by (simp only: of_int_le_iff)
      then show ?thesis by simp
    qed
    have "e0 - 1 = (bitlen p - 1) - bitlen q" unfolding e0_def by arith
    then have "pow2 (e0 - 1) = pow2 ((bitlen p - 1) - bitlen q)" by (rule arg_cong)
    also have "\<dots> = (2::rat) powi (bitlen p - 1) / 2 powi (bitlen q)"
      unfolding pow2_powi by (rule power_int_diff) simp
    also have "\<dots> = (2::rat) ^ nat (bitlen p - 1) / 2 ^ nat (bitlen q)"
      using bp bq by (simp add: power_int_def)
    also have "\<dots> \<le> of_int p / of_int q"
      using lo' hi' p q by (intro frac_le) simp_all
    finally have "pow2 (e0 - 1) \<le> x" by (simp add: x)
    with False show ?thesis by (simp add: float_exponent_def pq e0_def)
  qed
qed

lemma float_exponent_gt:
  assumes "0 < x"
  shows "x < pow2 (float_exponent x + 1)"
proof -
  obtain p q where pq: "quotient_of x = (p, q)" by (cases "quotient_of x")
  then have q: "0 < q" and x: "x = of_int p / of_int q"
    by (simp_all add: quotient_of_denom_pos quotient_of_div)
  from assms x q have p: "0 < p" by (simp add: zero_less_divide_iff)
  define e0 where "e0 = bitlen p - bitlen q"
  show ?thesis
  proof (cases "pow2 e0 \<le> x")
    case False
    then show ?thesis by (simp add: float_exponent_def pq e0_def)
  next
    case True
    have bq: "1 \<le> bitlen q" using q bitlen_eq_zero_iff [of q] bitlen_nonneg [of q] by linarith
    from bitlen_bounds [OF p] have hi: "p < (2::int) ^ nat (bitlen p)" by simp
    from bitlen_bounds [OF q] have lo: "(2::int) ^ nat (bitlen q - 1) \<le> q" by simp
    have hi': "(of_int p :: rat) < 2 ^ nat (bitlen p)"
    proof -
      from hi have "(of_int p :: rat) < of_int ((2::int) ^ nat (bitlen p))"
        by (simp only: of_int_less_iff)
      then show ?thesis by simp
    qed
    have lo': "(2::rat) ^ nat (bitlen q - 1) \<le> of_int q"
    proof -
      from lo have "(of_int ((2::int) ^ nat (bitlen q - 1)) :: rat) \<le> of_int q"
        by (simp only: of_int_le_iff)
      then show ?thesis by simp
    qed
    have "x < 2 ^ nat (bitlen p) / 2 ^ nat (bitlen q - 1)"
      unfolding x using hi' lo' p q by (intro frac_less) simp_all
    also have "\<dots> = (2::rat) powi (bitlen p) / 2 powi (bitlen q - 1)"
      using bq bitlen_nonneg [of p] by (simp add: power_int_def)
    also have "\<dots> = (2::rat) powi (bitlen p - (bitlen q - 1))"
      by (rule power_int_diff [symmetric]) simp
    also have "bitlen p - (bitlen q - 1) = e0 + 1" unfolding e0_def by arith
    finally show ?thesis using True by (simp add: float_exponent_def pq e0_def pow2_powi)
  qed
qed

lemma round_half_even_error: "\<bar>of_int (round_half_even q) - q\<bar> \<le> 1 / 2"
proof -
  define f where "f = \<lfloor>q\<rfloor>"
  have "of_int f \<le> q" "q < of_int f + 1" unfolding f_def by linarith+
  then show ?thesis
    unfolding round_half_even_def Let_def f_def [symmetric] by (auto simp: abs_if)
qed

lemma double_round_error: "\<bar>double_round x - x\<bar> \<le> unit_roundoff * \<bar>x\<bar>"
proof (cases "x = 0")
  case True
  then show ?thesis by (simp add: double_round_def)
next
  case False
  define a where "a = \<bar>x\<bar>"
  define ulp where "ulp = pow2 (float_exponent a - 52)"
  define m where "m = round_half_even (a / ulp)"
  have a: "0 < a" using False by (simp add: a_def)
  have ulp: "0 < ulp" by (simp add: ulp_def pow2_pos)
  have val: "double_round x = sgn x * of_int m * ulp"
    using False by (simp add: double_round_def Let_def a_def ulp_def m_def)
  have x: "x = sgn x * a" by (simp add: a_def sgn_mult_abs)
  have "double_round x - x = sgn x * (of_int m * ulp - a)"
    by (subst (2) x) (simp add: val algebra_simps)
  then have "\<bar>double_round x - x\<bar> = \<bar>of_int m * ulp - a\<bar>"
    using False by (simp add: abs_mult abs_sgn_eq)
  also have "\<dots> = \<bar>of_int m - a / ulp\<bar> * ulp"
  proof -
    have "of_int m * ulp - a = (of_int m - a / ulp) * ulp" using ulp by (simp add: field_simps)
    then show ?thesis using ulp by (simp add: abs_mult)
  qed
  also have "\<dots> \<le> 1 / 2 * ulp"
    using round_half_even_error [of "a / ulp"] ulp unfolding m_def
    by (intro mult_right_mono) simp_all
  also have "\<dots> = pow2 (float_exponent a) / 2 ^ 53"
    by (simp add: ulp_def pow2_shift)
  also have "\<dots> \<le> a / 2 ^ 53"
    using float_exponent_le [OF a] by (simp add: divide_right_mono)
  finally show ?thesis by (simp add: unit_roundoff_def a_def)
qed

lemma double_round_bounds:
  assumes "0 \<le> x"
  shows "(1 - unit_roundoff) * x \<le> double_round x" and "double_round x \<le> (1 + unit_roundoff) * x"
  using double_round_error [of x] assms by (simp_all add: abs_le_iff algebra_simps)

lemma unit_roundoff_range: "0 < unit_roundoff" "unit_roundoff < 1"
  by (simp_all add: unit_roundoff_def)

lemma double_round_pos: "0 < x \<Longrightarrow> 0 < double_round x"
proof -
  assume x: "0 < x"
  then have "0 < (1 - unit_roundoff) * x" using unit_roundoff_range by simp
  also have "\<dots> \<le> double_round x" using x by (intro double_round_bounds) simp
  finally show ?thesis .
qed

lemma double_round_0: "double_round 0 = 0"
  by (simp add: double_round_def)

lemma double_round_1: "double_round 1 = 1"
  by code_simp


lemma round_half_even_of_int: "round_half_even (of_int z) = z"
  by (simp add: round_half_even_def)

lemma float_exponent_small:
  assumes "0 < x" and "x < 2 ^ 53"
  shows "float_exponent x \<le> 52"
proof (rule ccontr)
  assume "\<not> float_exponent x \<le> 52"
  then have "53 \<le> float_exponent x" by simp
  then have "(2::rat) powi 53 \<le> 2 powi float_exponent x"
    by (intro power_int_increasing) simp_all
  also have "\<dots> \<le> x" using float_exponent_le [OF assms(1)] by (simp add: pow2_powi)
  finally show False using assms(2) by simp
qed

lemma double_round_of_int:
  assumes "0 \<le> k" and "k < 2 ^ 53"
  shows "double_round (of_int k) = of_int k"
proof (cases "k = 0")
  case True
  then show ?thesis by (simp add: double_round_def)
next
  case False
  with assms(1) have k: "0 < k" by simp
  define e where "e = float_exponent (of_int k)"
  define d where "d = nat (52 - e)"
  have "(of_int k :: rat) < of_int (2 ^ 53)" using assms(2) by (simp only: of_int_less_iff)
  then have "(of_int k :: rat) < 2 ^ 53" by simp
  with k have e: "e \<le> 52" unfolding e_def by (intro float_exponent_small) simp_all
  have ulp: "pow2 (e - 52) = 1 / 2 ^ d"
  proof (cases "e = 52")
    case True
    then show ?thesis by (simp add: pow2_def d_def)
  next
    case False
    with e have "e - 52 < 0" by simp
    then show ?thesis by (simp add: pow2_def d_def)
  qed
  have "of_int k / pow2 (e - 52) = (of_int (k * 2 ^ d) :: rat)" by (simp add: ulp)
  then have m: "round_half_even (of_int k / pow2 (e - 52)) = k * 2 ^ d"
    by (simp only: round_half_even_of_int)
  have "double_round (of_int k) = of_int (k * 2 ^ d) * (1 / 2 ^ d)"
    using k m unfolding double_round_def Let_def e_def [symmetric]
    by (simp add: ulp e_def [symmetric])
  then show ?thesis by simp
qed

lemma double_round_of_nat: "k < 2 ^ 53 \<Longrightarrow> double_round (of_nat k) = of_nat k"
  using double_round_of_int [of "int k"] by simp

lemma double_round_nonneg: "0 \<le> x \<Longrightarrow> 0 \<le> double_round x"
  using double_round_pos [of x] by (cases "x = 0") (simp_all add: double_round_0 less_imp_le)

text \<open>
  The reciprocal \<open>1.0 / x\<close> of a number that is at least \<open>2 - u\<close> before rounding is below 1
  after the two roundings.
\<close>

lemma double_reciprocal_less_one:
  assumes "2 - unit_roundoff \<le> x"
  shows "0 < double_round (1 / double_round x)" and "double_round (1 / double_round x) < 1"
proof -
  let ?u = unit_roundoff
  have u: "0 < ?u" "?u < 1" by (rule unit_roundoff_range)+
  from assms u have x: "0 < x" by simp
  define y where "y = double_round x"
  have "(1 - ?u) * (2 - ?u) \<le> (1 - ?u) * x" using assms u by (intro mult_left_mono) simp_all
  also have "\<dots> \<le> y" unfolding y_def using x by (intro double_round_bounds) simp
  finally have y: "(1 - ?u) * (2 - ?u) \<le> y" .
  have c: "0 < (1 - ?u) * (2 - ?u)" using u by simp
  with y have ypos: "0 < y" by simp
  then have z: "0 < 1 / y" by simp
  then show "0 < double_round (1 / double_round x)" unfolding y_def by (rule double_round_pos)
  have "double_round (1 / y) \<le> (1 + ?u) * (1 / y)" using z by (intro double_round_bounds) simp
  also have "\<dots> \<le> (1 + ?u) * (1 / ((1 - ?u) * (2 - ?u)))"
    using y c u by (intro mult_left_mono frac_le) simp_all
  also have "\<dots> < 1" by (simp add: unit_roundoff_def)
  finally show "double_round (1 / double_round x) < 1" unfolding y_def .
qed


text \<open>Relative error bounds with the single factor \<open>1 - u\<close>.\<close>

lemma double_round_lower: "0 \<le> x \<Longrightarrow> (1 - unit_roundoff) * x \<le> double_round x"
  by (rule double_round_bounds)

lemma double_round_upper:
  assumes "0 \<le> x"
  shows "double_round x \<le> x / (1 - unit_roundoff)"
proof -
  have u: "0 < unit_roundoff" "unit_roundoff < 1" by (rule unit_roundoff_range)+
  have "double_round x \<le> (1 + unit_roundoff) * x" using assms by (rule double_round_bounds)
  also have "\<dots> \<le> (1 / (1 - unit_roundoff)) * x"
  proof (rule mult_right_mono [OF _ assms])
    have "(1 + unit_roundoff) * (1 - unit_roundoff) \<le> 1" using u by (simp add: algebra_simps)
    then show "1 + unit_roundoff \<le> 1 / (1 - unit_roundoff)" using u by (simp add: pos_le_divide_eq)
  qed
  finally show ?thesis by simp
qed

lemma foldl_double_add_bounds:
  assumes "0 \<le> acc" and "\<forall>x\<in>set xs. 0 \<le> x"
  shows "(1 - unit_roundoff) ^ length xs * (acc + sum_list xs)
           \<le> foldl (\<lambda>acc x. double_round (acc + x)) acc xs
       \<and> foldl (\<lambda>acc x. double_round (acc + x)) acc xs
           \<le> (acc + sum_list xs) / (1 - unit_roundoff) ^ length xs"
  using assms
proof (induction xs arbitrary: acc)
  case Nil
  then show ?case by simp
next
  case (Cons x xs)
  define q where "q = 1 - unit_roundoff"
  have q: "0 < q" "q \<le> 1" using unit_roundoff_range by (simp_all add: q_def)
  define a where "a = double_round (acc + x)"
  define s where "s = sum_list xs"
  from Cons.prems have x: "0 \<le> x" and xs: "\<forall>y\<in>set xs. 0 \<le> y" by simp_all
  from xs have s: "0 \<le> s" unfolding s_def by (intro sum_list_nonneg) simp
  have ax: "0 \<le> acc + x" using Cons.prems(1) x by simp
  have lo: "q * (acc + x) \<le> a" unfolding q_def a_def by (rule double_round_lower [OF ax])
  have hi: "a \<le> (acc + x) / q" unfolding q_def a_def by (rule double_round_upper [OF ax])
  have a: "0 \<le> a" unfolding a_def by (rule double_round_nonneg [OF ax])
  from Cons.IH [OF a xs] have
    ih1: "q ^ length xs * (a + s) \<le> foldl (\<lambda>acc x. double_round (acc + x)) a xs" and
    ih2: "foldl (\<lambda>acc x. double_round (acc + x)) a xs \<le> (a + s) / q ^ length xs"
    by (simp_all add: q_def s_def)
  have qn: "0 < q ^ length xs" using q by simp
  have "q * s \<le> s" using q s by (simp add: mult_left_le_one_le)
  with lo have "q * (acc + x + s) \<le> a + s" by (simp add: algebra_simps)
  then have "q ^ length xs * (q * (acc + x + s)) \<le> q ^ length xs * (a + s)"
    using qn by (intro mult_left_mono) simp_all
  with ih1 have 1: "q ^ Suc (length xs) * (acc + x + s)
                      \<le> foldl (\<lambda>acc x. double_round (acc + x)) a xs"
    by (simp add: mult.assoc mult.left_commute)
  have "s \<le> s / q" using q s by (simp add: pos_le_divide_eq mult_left_le)
  with hi have "a + s \<le> (acc + x + s) / q" by (simp add: add_divide_distrib)
  then have "(a + s) / q ^ length xs \<le> (acc + x + s) / q / q ^ length xs"
    using qn by (intro divide_right_mono) simp_all
  with ih2 have 2: "foldl (\<lambda>acc x. double_round (acc + x)) a xs
                      \<le> (acc + x + s) / q ^ Suc (length xs)"
    by simp
  from 1 2 show ?case by (simp add: a_def s_def q_def add.assoc)
qed

lemma py_sum_bounds:
  assumes "\<forall>x\<in>set xs. 0 \<le> x"
  shows "(1 - unit_roundoff) ^ length xs * sum_list xs \<le> py_sum xs"
    and "py_sum xs \<le> sum_list xs / (1 - unit_roundoff) ^ length xs"
  using foldl_double_add_bounds [OF _ assms, of 0] by (simp_all add: py_sum_def)

text \<open>The product \<open>x * y\<close> of two rounded factors, rounded.\<close>

lemma double_product_bounds:
  assumes "0 \<le> x" and "0 \<le> y"
  shows "(1 - unit_roundoff) ^ 3 * (x * y) \<le> double_round (double_round x * double_round y)"
    and "double_round (double_round x * double_round y) \<le> x * y / (1 - unit_roundoff) ^ 3"
proof -
  define q where "q = 1 - unit_roundoff"
  have q: "0 < q" "q \<le> 1" using unit_roundoff_range by (simp_all add: q_def)
  define a where "a = double_round x"
  define b where "b = double_round y"
  have a: "0 \<le> a" "q * x \<le> a" "a \<le> x / q"
    unfolding a_def q_def
    by (rule double_round_nonneg [OF assms(1)] double_round_lower [OF assms(1)]
        double_round_upper [OF assms(1)])+
  have b: "0 \<le> b" "q * y \<le> b" "b \<le> y / q"
    unfolding b_def q_def
    by (rule double_round_nonneg [OF assms(2)] double_round_lower [OF assms(2)]
        double_round_upper [OF assms(2)])+
  have ab: "0 \<le> a * b" using a(1) b(1) by simp
  have "(q * x) * (q * y) \<le> a * b"
    using a b q assms by (intro mult_mono) simp_all
  then have lo: "q ^ 2 * (x * y) \<le> a * b" by (simp add: power2_eq_square algebra_simps)
  have "a * b \<le> (x / q) * (y / q)"
    using a b q assms by (intro mult_mono) simp_all
  then have hi: "a * b \<le> x * y / q ^ 2" by (simp add: power2_eq_square)
  have "q ^ 3 * (x * y) = q * (q ^ 2 * (x * y))" by (simp add: power3_eq_cube power2_eq_square)
  also have "\<dots> \<le> q * (a * b)" using lo q by (intro mult_left_mono) simp_all
  also have "\<dots> \<le> double_round (a * b)" unfolding q_def by (rule double_round_lower [OF ab])
  finally show "(1 - unit_roundoff) ^ 3 * (x * y) \<le> double_round (double_round x * double_round y)"
    by (simp add: q_def a_def b_def)
  have "double_round (a * b) \<le> a * b / q" unfolding q_def by (rule double_round_upper [OF ab])
  also have "\<dots> \<le> x * y / q ^ 2 / q" using hi q by (intro divide_right_mono) simp_all
  also have "\<dots> = x * y / q ^ 3" by (simp add: power3_eq_cube power2_eq_square)
  finally show "double_round (double_round x * double_round y) \<le> x * y / (1 - unit_roundoff) ^ 3"
    by (simp add: q_def a_def b_def)
qed

lemma sum_list_map_bounds:
  fixes f :: "rat \<Rightarrow> rat"
  assumes "\<forall>x\<in>set xs. a * x \<le> f x \<and> f x \<le> b * x"
  shows "a * sum_list xs \<le> sum_list (map f xs)" and "sum_list (map f xs) \<le> b * sum_list xs"
  using assms by (induction xs) (auto simp: distrib_left intro: add_mono)


section \<open>Greedy hitting-set bound (measures/rim.py)\<close>

text \<open>
  A Python \<open>Set[int]\<close> is modelled by the list of its elements in iteration order; the
  copy \<open>set(e)\<close> is \<open>remdups e\<close>. The \<open>defaultdict(int)\<close> named \<open>freq\<close> is an
  association list in insertion order, which is the order \<open>freq.items()\<close> walks.
\<close>

type_synonym edge = "nat list"

text \<open>\<open>freq[u] += 1\<close> on a \<open>defaultdict(int)\<close>.\<close>

fun freq_incr :: "nat \<Rightarrow> (nat \<times> int) list \<Rightarrow> (nat \<times> int) list" where
  "freq_incr u [] = [(u, 1)]"
| "freq_incr u ((k, c) # rest) =
     (if k = u then (k, c + 1) # rest else (k, c) # freq_incr u rest)"

text \<open>\<open>for e in uncovered: for u in e: freq[u] += 1\<close>\<close>

definition count_freq :: "edge list \<Rightarrow> (nat \<times> int) list" where
  "count_freq uncovered = fold (\<lambda>e freq. fold freq_incr e freq) uncovered []"

text \<open>
  \<open>best_u, best_f = None, -1\<close>, then
  \<open>for u, f in freq.items(): if f > best_f: best_u, best_f = u, f\<close>
\<close>

definition pick_max_frequency :: "(nat \<times> int) list \<Rightarrow> nat option \<times> int" where
  "pick_max_frequency freq =
     fold (\<lambda>(u, f) (best_u, best_f). if f > best_f then (Some u, f) else (best_u, best_f))
       freq (None, - 1)"

lemma freq_incr_keys: "fst ` set (freq_incr u freq) = insert u (fst ` set freq)"
  by (induction u freq rule: freq_incr.induct) auto

lemma fold_freq_incr_keys: "fst ` set (fold freq_incr e freq) = set e \<union> fst ` set freq"
  by (induction e arbitrary: freq) (auto simp: freq_incr_keys)

lemma count_freq_keys_gen:
  "fst ` set (fold (\<lambda>e freq. fold freq_incr e freq) es freq)
     = (\<Union>e\<in>set es. set e) \<union> fst ` set freq"
  by (induction es arbitrary: freq) (auto simp: fold_freq_incr_keys)

lemma count_freq_keys: "fst ` set (count_freq es) = (\<Union>e\<in>set es. set e)"
  by (simp add: count_freq_def count_freq_keys_gen)

lemma pick_fold_key:
  "fold (\<lambda>(u, f) (best_u, best_f). if f > best_f then (Some u, f) else (best_u, best_f))
       freq (b, bf) = (Some u, f')
   \<Longrightarrow> b = Some u \<or> u \<in> fst ` set freq"
proof (induction freq arbitrary: b bf)
  case Nil
  then show ?case by simp
next
  case (Cons p freq)
  obtain k c where p: "p = (k, c)" by (cases p)
  show ?case
  proof (cases "c > bf")
    case True
    with Cons.prems p have
      "fold (\<lambda>(u, f) (best_u, best_f). if f > best_f then (Some u, f) else (best_u, best_f))
         freq (Some k, c) = (Some u, f')" by simp
    from Cons.IH [OF this] p show ?thesis by auto
  next
    case False
    with Cons.prems p have
      "fold (\<lambda>(u, f) (best_u, best_f). if f > best_f then (Some u, f) else (best_u, best_f))
         freq (b, bf) = (Some u, f')" by simp
    from Cons.IH [OF this] show ?thesis by auto
  qed
qed

lemma pick_max_frequency_key:
  assumes "fst (pick_max_frequency freq) = Some u"
  shows "u \<in> fst ` set freq"
proof -
  obtain f' where "pick_max_frequency freq = (Some u, f')"
    using assms by (cases "pick_max_frequency freq") auto
  then show ?thesis
    unfolding pick_max_frequency_def using pick_fold_key [of freq None "- 1" u f'] by simp
qed

lemma pick_in_some_edge:
  assumes "fst (pick_max_frequency (count_freq uncovered)) = Some u"
  shows "\<exists>e\<in>set uncovered. u \<in> set e"
  using pick_max_frequency_key [OF assms] by (simp add: count_freq_keys)

lemma pick_shrinks:
  assumes "fst (pick_max_frequency (count_freq uncovered)) = Some u"
  shows "length (filter (\<lambda>e. u \<notin> set e) uncovered) < length uncovered"
proof -
  from pick_in_some_edge [OF assms] obtain e where "e \<in> set uncovered" "u \<in> set e" by blast
  then show ?thesis by (intro length_filter_less [of e]) auto
qed

text \<open>
  The \<open>while uncovered:\<close> loop. \<open>if best_u is None: break\<close> is the \<open>None\<close> branch.
\<close>

function greedy_loop :: "edge list \<Rightarrow> int \<Rightarrow> int" where
  "greedy_loop uncovered sz =
     (if uncovered = [] then sz
      else case fst (pick_max_frequency (count_freq uncovered)) of
             None \<Rightarrow> sz
           | Some best_u \<Rightarrow>
               greedy_loop (filter (\<lambda>e. best_u \<notin> set e) uncovered) (sz + 1))"
  by pat_completeness auto
termination
  by (relation "measure (\<lambda>(uncovered, sz). length uncovered)") (auto simp: pick_shrinks)

declare greedy_loop.simps [simp del]

definition greedy_hitting_set_size :: "edge list \<Rightarrow> int" where
  "greedy_hitting_set_size edges =
     (let uncovered = map remdups (filter (\<lambda>e. e \<noteq> []) edges)
      in if uncovered = [] then 0 else greedy_loop uncovered 0)"


text \<open>
  Specification side: a hitting set of a family of edges, and the least size of one inside the
  universe \<open>{0..<n}\<close>.
\<close>

definition hits :: "nat set \<Rightarrow> edge list \<Rightarrow> bool" where
  "hits H edges = (\<forall>e\<in>set edges. \<exists>u\<in>set e. u \<in> H)"

definition min_hitting_set_size :: "nat \<Rightarrow> edge list \<Rightarrow> nat" where
  "min_hitting_set_size n edges = (LEAST k. \<exists>H. H \<subseteq> {0..<n} \<and> card H = k \<and> hits H edges)"

text \<open>
  The elements the loop selects, in order. The source only counts them; the list is the
  hitting set that the count is the size of.
\<close>

function greedy_picks :: "edge list \<Rightarrow> nat list" where
  "greedy_picks uncovered =
     (if uncovered = [] then []
      else case fst (pick_max_frequency (count_freq uncovered)) of
             None \<Rightarrow> []
           | Some best_u \<Rightarrow> best_u # greedy_picks (filter (\<lambda>e. best_u \<notin> set e) uncovered))"
  by pat_completeness auto
termination
  by (relation "measure length") (auto simp: pick_shrinks)

declare greedy_picks.simps [simp del]

lemma greedy_loop_counts_picks:
  "greedy_loop uncovered sz = sz + int (length (greedy_picks uncovered))"
proof (induction uncovered sz rule: greedy_loop.induct)
  case (1 uncovered sz)
  show ?case
  proof (cases "uncovered = []")
    case True
    then show ?thesis by (simp add: greedy_loop.simps greedy_picks.simps)
  next
    case False
    show ?thesis
    proof (cases "fst (pick_max_frequency (count_freq uncovered))")
      case None
      with False show ?thesis
        by (simp add: greedy_loop.simps [of uncovered] greedy_picks.simps [of uncovered])
    next
      case (Some u)
      from "1.IH" [OF False Some] False Some show ?thesis
        by (simp add: greedy_loop.simps [of uncovered] greedy_picks.simps [of uncovered])
    qed
  qed
qed

lemma greedy_picks_subset: "set (greedy_picks uncovered) \<subseteq> (\<Union>e\<in>set uncovered. set e)"
proof (induction uncovered rule: greedy_picks.induct)
  case (1 uncovered)
  show ?case
  proof (cases "uncovered = []")
    case True
    then show ?thesis by (simp add: greedy_picks.simps)
  next
    case False
    show ?thesis
    proof (cases "fst (pick_max_frequency (count_freq uncovered))")
      case None
      with False show ?thesis by (simp add: greedy_picks.simps [of uncovered])
    next
      case (Some u)
      from pick_in_some_edge [OF Some] have u: "u \<in> (\<Union>e\<in>set uncovered. set e)" by blast
      from "1.IH" [OF False Some]
      have "set (greedy_picks (filter (\<lambda>e. u \<notin> set e) uncovered)) \<subseteq> (\<Union>e\<in>set uncovered. set e)"
        by auto
      with u False Some show ?thesis by (simp add: greedy_picks.simps [of uncovered])
    qed
  qed
qed

lemma greedy_picks_distinct: "distinct (greedy_picks uncovered)"
proof (induction uncovered rule: greedy_picks.induct)
  case (1 uncovered)
  show ?case
  proof (cases "uncovered = []")
    case True
    then show ?thesis by (simp add: greedy_picks.simps)
  next
    case False
    show ?thesis
    proof (cases "fst (pick_max_frequency (count_freq uncovered))")
      case None
      with False show ?thesis by (simp add: greedy_picks.simps [of uncovered])
    next
      case (Some u)
      have "u \<notin> set (greedy_picks (filter (\<lambda>e. u \<notin> set e) uncovered))"
        using greedy_picks_subset [of "filter (\<lambda>e. u \<notin> set e) uncovered"] by auto
      with "1.IH" [OF False Some] False Some show ?thesis
        by (simp add: greedy_picks.simps [of uncovered])
    qed
  qed
qed

lemma freq_incr_positive:
  "\<forall>p\<in>set freq. 1 \<le> snd p \<Longrightarrow> \<forall>p\<in>set (freq_incr u freq). 1 \<le> snd p"
  by (induction u freq rule: freq_incr.induct) auto

lemma fold_freq_incr_positive:
  "\<forall>p\<in>set freq. 1 \<le> snd p \<Longrightarrow> \<forall>p\<in>set (fold freq_incr e freq). 1 \<le> snd p"
proof (induction e arbitrary: freq)
  case Nil
  then show ?case by simp
next
  case (Cons u e)
  from Cons.IH [OF freq_incr_positive [OF Cons.prems, of u]] show ?case by simp
qed

lemma count_freq_positive_gen:
  "\<forall>p\<in>set freq. 1 \<le> snd p
   \<Longrightarrow> \<forall>p\<in>set (fold (\<lambda>e freq. fold freq_incr e freq) es freq). 1 \<le> snd p"
proof (induction es arbitrary: freq)
  case Nil
  then show ?case by simp
next
  case (Cons e es)
  from Cons.IH [OF fold_freq_incr_positive [OF Cons.prems, of e]] show ?case by simp
qed

lemma count_freq_positive: "\<forall>p\<in>set (count_freq es). 1 \<le> snd p"
  unfolding count_freq_def by (rule count_freq_positive_gen) simp

lemma pick_fold_keeps_Some:
  "fst (fold (\<lambda>(u, f) (best_u, best_f). if f > best_f then (Some u, f) else (best_u, best_f))
       freq (Some x, bf)) \<noteq> None"
proof (induction freq arbitrary: x bf)
  case Nil
  then show ?case by simp
next
  case (Cons p freq)
  obtain k c where p: "p = (k, c)" by (cases p)
  show ?case using Cons.IH p by (cases "c > bf") simp_all
qed

lemma pick_max_frequency_Some:
  assumes "freq \<noteq> []" and "\<forall>p\<in>set freq. 1 \<le> snd p"
  shows "fst (pick_max_frequency freq) \<noteq> None"
proof -
  obtain k c rest where freq: "freq = (k, c) # rest"
    using assms(1) by (cases freq) auto
  with assms(2) have "c > - 1" by simp
  then show ?thesis
    unfolding pick_max_frequency_def freq using pick_fold_keeps_Some [of rest k c] by simp
qed

lemma pick_defined:
  assumes "e \<in> set uncovered" and "e \<noteq> []"
  shows "fst (pick_max_frequency (count_freq uncovered)) \<noteq> None"
proof -
  from assms have "fst ` set (count_freq uncovered) \<noteq> {}"
    by (auto simp: count_freq_keys)
  then have "count_freq uncovered \<noteq> []" by auto
  then show ?thesis by (rule pick_max_frequency_Some) (rule count_freq_positive)
qed

lemma greedy_picks_hit:
  "\<forall>e\<in>set uncovered. e \<noteq> [] \<Longrightarrow> hits (set (greedy_picks uncovered)) uncovered"
proof (induction uncovered rule: greedy_picks.induct)
  case (1 uncovered)
  show ?case
  proof (cases "uncovered = []")
    case True
    then show ?thesis by (simp add: hits_def)
  next
    case False
    then obtain e where e: "e \<in> set uncovered" by (cases uncovered) auto
    with "1.prems" have "e \<noteq> []" by blast
    from pick_defined [OF e this] obtain u
      where Some: "fst (pick_max_frequency (count_freq uncovered)) = Some u" by auto
    have "\<forall>e\<in>set (filter (\<lambda>e. u \<notin> set e) uncovered). e \<noteq> []"
      using "1.prems" by simp
    from "1.IH" [OF False Some this]
    have IH: "hits (set (greedy_picks (filter (\<lambda>e. u \<notin> set e) uncovered)))
                (filter (\<lambda>e. u \<notin> set e) uncovered)" .
    have picks: "greedy_picks uncovered = u # greedy_picks (filter (\<lambda>e. u \<notin> set e) uncovered)"
      using False Some by (simp add: greedy_picks.simps [of uncovered])
    show ?thesis unfolding picks hits_def
    proof
      fix d assume d: "d \<in> set uncovered"
      show "\<exists>w\<in>set d. w \<in> set (u # greedy_picks (filter (\<lambda>e. u \<notin> set e) uncovered))"
      proof (cases "u \<in> set d")
        case True
        then show ?thesis by auto
      next
        case False
        with d have "d \<in> set (filter (\<lambda>e. u \<notin> set e) uncovered)" by simp
        with IH show ?thesis unfolding hits_def by auto
      qed
    qed
  qed
qed


lemma greedy_size_is_picks:
  "greedy_hitting_set_size edges
     = int (length (greedy_picks (map remdups (filter (\<lambda>e. e \<noteq> []) edges))))"
  by (simp add: greedy_hitting_set_size_def Let_def greedy_loop_counts_picks greedy_picks.simps)

lemma hits_remdups: "hits H (map remdups edges) = hits H edges"
  by (simp add: hits_def)

text \<open>
  C9. For every list of non-empty edges over the universe \<open>{0..<n}\<close>, the greedy bound is a
  total function whose value \<open>k\<close> is non-negative and at most \<open>n\<close>; some subset of the universe
  with exactly \<open>k\<close> elements (the selected elements) hits every edge, so the least hitting-set
  size is at most \<open>k\<close>; and the bound of the empty edge list is 0.
\<close>

theorem greedy_hitting_set_size_upper_bound:
  assumes "\<forall>e\<in>set edges. e \<noteq> [] \<and> set e \<subseteq> {0..<n}"
  shows "0 \<le> greedy_hitting_set_size edges
       \<and> greedy_hitting_set_size edges \<le> int n
       \<and> (\<exists>H. H \<subseteq> {0..<n} \<and> int (card H) = greedy_hitting_set_size edges \<and> hits H edges)
       \<and> int (min_hitting_set_size n edges) \<le> greedy_hitting_set_size edges
       \<and> greedy_hitting_set_size [] = 0"
proof -
  define unc where "unc = map remdups (filter (\<lambda>e. e \<noteq> []) edges)"
  define H where "H = set (greedy_picks unc)"
  have keep: "filter (\<lambda>e. e \<noteq> []) edges = edges"
    using assms by (simp add: filter_id_conv)
  have unc: "unc = map remdups edges" by (simp add: unc_def keep)
  have size: "greedy_hitting_set_size edges = int (length (greedy_picks unc))"
    by (simp add: greedy_size_is_picks unc_def)
  have card: "card H = length (greedy_picks unc)"
    unfolding H_def by (rule distinct_card) (rule greedy_picks_distinct)
  have "H \<subseteq> (\<Union>e\<in>set unc. set e)"
    unfolding H_def by (rule greedy_picks_subset)
  also have "\<dots> \<subseteq> {0..<n}" using assms by (auto simp: unc)
  finally have sub: "H \<subseteq> {0..<n}" .
  then have "card H \<le> card {0..<n}" by (intro card_mono) simp_all
  then have le: "card H \<le> n" by simp
  have "\<forall>e\<in>set unc. e \<noteq> []" using assms by (auto simp: unc)
  then have "hits H unc" unfolding H_def by (rule greedy_picks_hit)
  then have hit: "hits H edges" by (simp add: unc hits_remdups)
  have ex: "\<exists>H. H \<subseteq> {0..<n} \<and> card H = card H \<and> hits H edges"
    using sub hit by blast
  have "min_hitting_set_size n edges \<le> card H"
    unfolding min_hitting_set_size_def by (rule Least_le) (use sub hit in blast)
  moreover have "greedy_hitting_set_size [] = 0"
    by (simp add: greedy_hitting_set_size_def)
  ultimately show ?thesis using size card le sub hit by auto
qed

theorem greedy_hitting_set_size_upper_bound_witness:
  "greedy_hitting_set_size [[0, 1], [0, 2]] = 1
   \<and> (\<exists>H. H \<subseteq> {0..<3} \<and> int (card H) = greedy_hitting_set_size [[0, 1], [0, 2]]
          \<and> hits H [[0, 1], [0, 2]])
   \<and> int (min_hitting_set_size 3 [[0, 1], [0, 2]]) \<le> 1"
proof -
  have h: "\<forall>e\<in>set [[0, 1], [0, 2 :: nat]]. e \<noteq> [] \<and> set e \<subseteq> {0..<3}" by simp
  have v: "greedy_hitting_set_size [[0, 1], [0, 2]] = 1"
    by (simp add: greedy_hitting_set_size_def greedy_loop.simps count_freq_def
        pick_max_frequency_def)
  show ?thesis using v greedy_hitting_set_size_upper_bound [OF h] by simp
qed


section \<open>Shapley attribution engine (compute\_icqa\_shap.py)\<close>

text \<open>
  Coalitions and support sets are Python integers used as bit masks; they are natural numbers
  here, with \<open>1 << idx\<close> as \<open>push_bit idx 1\<close>. \<open>exact_shapley\<close> and \<open>approx_shapley\<close> are
  evaluated in exact rational arithmetic: they give the values that the floating-point
  computation approximates. \<open>approx_shapley_float64\<close> is the Monte-Carlo estimator with every
  float64 operation rounded as numpy rounds it.
\<close>

definition support_sets_to_masks :: "nat list list \<Rightarrow> nat \<Rightarrow> nat list" where
  "support_sets_to_masks support_sets n =
     map (\<lambda>S. fold (\<lambda>i m. m OR push_bit i 1) S 0) support_sets"

definition compute_v_masks :: "nat list list \<Rightarrow> nat \<Rightarrow> int list \<times> nat list" where
  "compute_v_masks support_sets n =
     (let support_masks = support_sets_to_masks support_sets n;
          size_v = push_bit n (1::nat);
          v_mask = map (\<lambda>mask. if list_all (\<lambda>sm. mask AND sm \<noteq> 0) support_masks then 1 else 0)
                     [0..<size_v]
      in (v_mask, support_masks))"

text \<open>\<open>fact = [1] * (n + 1)\<close>, then \<open>for i in range(1, n + 1): fact[i] = fact[i - 1] * i\<close>\<close>

definition fact_table :: "nat \<Rightarrow> int list" where
  "fact_table n =
     fold (\<lambda>i fact. fact[i := fact ! (i - 1) * int i]) [1..<n + 1] (replicate (n + 1) 1)"

text \<open>\<open>int.bit_count\<close>\<close>

fun popcount :: "nat \<Rightarrow> nat" where
  "popcount m = (if m = 0 then 0 else m mod 2 + popcount (m div 2))"

declare popcount.simps [simp del]

text \<open>
  In the inner loop \<open>mask\<close> lacks bit \<open>t\<close>, so \<open>k \<le> n - 1\<close> and the index \<open>n - k - 1\<close> is
  never negative.
\<close>

definition exact_shapley :: "nat list list \<Rightarrow> nat \<Rightarrow> rat list" where
  "exact_shapley support_sets n =
     (if n = 0 then []
      else
        let v_mask = fst (compute_v_masks support_sets n);
            size_v = push_bit n (1::nat);
            fact = fact_table n;
            denom = fact ! n
        in map (\<lambda>t.
              let bit_t = push_bit t (1::nat)
              in fold (\<lambda>mask s.
                    if mask AND bit_t \<noteq> 0 then s
                    else
                      let k = popcount mask;
                          vC = v_mask ! mask;
                          vCt = v_mask ! (mask OR bit_t)
                      in if vCt = vC then s
                         else
                           let weight = of_int (fact ! k * fact ! (n - k - 1)) / of_int denom
                           in s + weight * of_int (vCt - vC))
                   [0..<size_v] 0)
            [0..<n])"

text \<open>
  The walk along one sampled permutation: the body of \<open>for idx in perm\<close>, with its two
  \<open>break\<close>s. \<open>counts[idx] += 1.0\<close> is the list update.
\<close>

fun walk :: "nat list \<Rightarrow> nat list \<Rightarrow> nat \<Rightarrow> int \<Rightarrow> rat list \<Rightarrow> rat list" where
  "walk support_masks [] coalition_mask vC counts = counts"
| "walk support_masks (idx # perm) coalition_mask vC counts =
     (if vC \<noteq> 0 then counts
      else
        let coalition_mask' = coalition_mask OR push_bit idx 1;
            hit = list_all (\<lambda>sm. coalition_mask' AND sm \<noteq> 0) support_masks;
            new_vC = (if hit then 1 else 0)
        in if vC = 0 \<and> new_vC \<noteq> 0 then counts[idx := counts ! idx + 1]
           else walk support_masks perm coalition_mask' new_vC counts)"

text \<open>
  A numpy float: dividing by zero gives \<open>nan\<close> or an infinity (with a warning), not an
  exception. \<open>np_divide\<close> takes the quotient exactly; \<open>np_divide_float64\<close> below rounds it.
\<close>

datatype npfloat = Fin rat | PosInf | NegInf | NaN

definition np_divide :: "rat \<Rightarrow> int \<Rightarrow> npfloat" where
  "np_divide c d =
     (if d \<noteq> 0 then Fin (c / of_int d)
      else if c = 0 then NaN else if 0 < c then PosInf else NegInf)"

text \<open>
  The random generator is modelled by the sequence of its draws: \<open>rng i\<close> is what the
  \<open>i\<close>-th call \<open>rng.permutation(n)\<close> returns, a permutation of \<open>range(n)\<close>.
\<close>

definition approx_shapley :: "nat list list \<Rightarrow> nat \<Rightarrow> int \<Rightarrow> (nat \<Rightarrow> nat list) \<Rightarrow> npfloat list" where
  "approx_shapley support_sets n num_samples rng =
     (if n = 0 then []
      else
        let support_masks = support_sets_to_masks support_sets n;
            counts = fold (\<lambda>i counts. walk support_masks (rng i) 0 0 counts)
                       [0..<nat num_samples] (replicate n 0)
        in map (\<lambda>c. np_divide c num_samples) counts)"

text \<open>
  The estimator in float64. \<open>counts\<close> is a numpy array of doubles: \<open>counts[idx] += 1.0\<close>
  rounds the sum, and \<open>counts / num_samples\<close> converts the int \<open>num_samples\<close> to a double and
  rounds every quotient.
\<close>

fun walk_float64 :: "nat list \<Rightarrow> nat list \<Rightarrow> nat \<Rightarrow> int \<Rightarrow> rat list \<Rightarrow> rat list" where
  "walk_float64 support_masks [] coalition_mask vC counts = counts"
| "walk_float64 support_masks (idx # perm) coalition_mask vC counts =
     (if vC \<noteq> 0 then counts
      else
        let coalition_mask' = coalition_mask OR push_bit idx 1;
            hit = list_all (\<lambda>sm. coalition_mask' AND sm \<noteq> 0) support_masks;
            new_vC = (if hit then 1 else 0)
        in if vC = 0 \<and> new_vC \<noteq> 0 then counts[idx := double_round (counts ! idx + 1)]
           else walk_float64 support_masks perm coalition_mask' new_vC counts)"

definition np_divide_float64 :: "rat \<Rightarrow> int \<Rightarrow> npfloat" where
  "np_divide_float64 c d =
     (let dv = double_round (of_int d)
      in if dv \<noteq> 0 then Fin (double_round (c / dv))
         else if c = 0 then NaN else if 0 < c then PosInf else NegInf)"

definition approx_shapley_float64 ::
  "nat list list \<Rightarrow> nat \<Rightarrow> int \<Rightarrow> (nat \<Rightarrow> nat list) \<Rightarrow> npfloat list" where
  "approx_shapley_float64 support_sets n num_samples rng =
     (if n = 0 then []
      else
        let support_masks = support_sets_to_masks support_sets n;
            counts = fold (\<lambda>i counts. walk_float64 support_masks (rng i) 0 0 counts)
                       [0..<nat num_samples] (replicate n 0)
        in map (\<lambda>c. np_divide_float64 c num_samples) counts)"

text \<open>
  The value of \<open>coalition_mask\<close> after the loop body has run over the elements \<open>pre\<close> of a
  permutation.
\<close>

definition prefix_mask :: "nat list \<Rightarrow> nat" where
  "prefix_mask pre = fold (\<lambda>idx coalition_mask. coalition_mask OR push_bit idx 1) pre 0"

definition N_EXACT :: nat where "N_EXACT = 14"
definition N_SAMPLES :: int where "N_SAMPLES = 10000"

text \<open>The sequence of draws that always returns the identity permutation.\<close>

definition identity_draws :: "nat \<Rightarrow> nat \<Rightarrow> nat list" where
  "identity_draws n i = [0..<n]"

text \<open>Draws of permutations of \<open>range(3)\<close> that start with 0, 1, 1, 1, 1, 2, 2, ...\<close>

definition skewed_draws :: "nat \<Rightarrow> nat list" where
  "skewed_draws i = (if i = 0 then [0, 1, 2] else if i < 5 then [1, 2, 0] else [2, 0, 1])"

text \<open>The draws \<open>[0, 1, ..., n-1]\<close>, \<open>[1, ..., n-1, 0]\<close>, \<open>[2, ..., n-1, 0, 1]\<close>, ...\<close>

definition rotating_draws :: "nat \<Rightarrow> nat \<Rightarrow> nat list" where
  "rotating_draws n i = rotate (i mod n) [0..<n]"


subsection \<open>Bit masks and population count\<close>

lemma lt_pow2_iff: "m < 2 ^ n \<longleftrightarrow> (\<forall>k. bit m k \<longrightarrow> k < n)" for m :: nat
proof -
  have "m < 2 ^ n \<longleftrightarrow> take_bit n m = m" by (simp add: take_bit_nat_eq_self_iff)
  also have "\<dots> \<longleftrightarrow> (\<forall>k. bit (take_bit n m) k = bit m k)" by (simp add: bit_eq_iff)
  also have "\<dots> \<longleftrightarrow> (\<forall>k. bit m k \<longrightarrow> k < n)" by (auto simp: bit_take_bit_iff)
  finally show ?thesis .
qed

lemma bit_pow2_nat: "bit ((2::nat) ^ i) k \<longleftrightarrow> k = i"
  by (auto simp: bit_exp_iff)

lemma popcount_step: "popcount m = m mod 2 + popcount (m div 2)"
  by (cases "m = 0") (simp_all add: popcount.simps [of m] popcount.simps [of 0])

lemma popcount_sum: "m < 2 ^ n \<Longrightarrow> popcount m = (\<Sum>k<n. if bit m k then 1 else 0)"
proof (induction n arbitrary: m)
  case 0
  then show ?case by (simp add: popcount.simps)
next
  case (Suc n)
  then have "m div 2 < 2 ^ n" by simp
  from Suc.IH [OF this] have IH: "popcount (m div 2) = (\<Sum>k<n. if bit (m div 2) k then 1 else 0)" .
  have "(\<Sum>k<Suc n. if bit m k then 1 else 0)
          = (if bit m 0 then 1 else 0) + (\<Sum>k<n. if bit m (Suc k) then 1 else (0::nat))"
    by (rule sum.lessThan_Suc_shift)
  also have "\<dots> = m mod 2 + popcount (m div 2)"
    by (simp add: IH bit_0 bit_Suc mod_2_eq_odd)
  finally show ?case by (simp add: popcount_step [of m])
qed

lemma popcount_set_bit:
  assumes "m < 2 ^ n" "t < n" "\<not> bit m t"
  shows "m OR 2 ^ t < 2 ^ n" and "popcount (m OR 2 ^ t) = Suc (popcount m)"
proof -
  show lt: "m OR 2 ^ t < 2 ^ n"
    using assms by (auto simp: lt_pow2_iff bit_or_iff bit_pow2_nat)
  have "popcount (m OR 2 ^ t) = (\<Sum>k<n. if bit (m OR 2 ^ t) k then 1 else 0)"
    by (rule popcount_sum [OF lt])
  also have "\<dots> = (\<Sum>k<n. (if bit m k then 1 else 0) + (if k = t then 1 else 0))"
    using assms(3) by (intro sum.cong) (auto simp: bit_or_iff bit_pow2_nat)
  also have "\<dots> = popcount m + 1"
    using assms(1,2) by (simp add: sum.distrib popcount_sum)
  finally show "popcount (m OR 2 ^ t) = Suc (popcount m)" by simp
qed


lemma unset_set_bit:
  assumes "\<not> bit m t" shows "unset_bit t (m OR 2 ^ t) = (m::nat)"
  using assms by (intro bit_eqI) (auto simp: bit_unset_bit_iff bit_or_iff bit_pow2_nat)

lemma set_unset_bit:
  assumes "bit D t" shows "unset_bit t D OR 2 ^ t = (D::nat)"
  using assms by (intro bit_eqI) (auto simp: bit_unset_bit_iff bit_or_iff bit_pow2_nat)

lemma unset_bit_lt: "D < 2 ^ n \<Longrightarrow> unset_bit t D < (2::nat) ^ n"
  by (auto simp: lt_pow2_iff bit_unset_bit_iff)

lemma reindex_set_bit:
  fixes h :: "nat \<Rightarrow> rat"
  assumes "t < n"
  shows "(\<Sum>m\<in>{m \<in> {..<2 ^ n}. \<not> bit m t}. h (m OR 2 ^ t)) = (\<Sum>D\<in>{D \<in> {..<2 ^ n}. bit D t}. h D)"
proof (rule sum.reindex_bij_witness [where i = "unset_bit t" and j = "\<lambda>m. m OR 2 ^ t"])
  fix a :: nat assume "a \<in> {m \<in> {..<2 ^ n}. \<not> bit m t}"
  then have a: "a < 2 ^ n" "\<not> bit a t" by auto
  show "unset_bit t (a OR 2 ^ t) = a" by (rule unset_set_bit [OF a(2)])
  show "a OR 2 ^ t \<in> {D \<in> {..<2 ^ n}. bit D t}"
    using popcount_set_bit(1) [OF a(1) assms a(2)] by (simp add: bit_or_iff bit_pow2_nat)
  show "h (a OR 2 ^ t) = h (a OR 2 ^ t)" ..
next
  fix b :: nat assume "b \<in> {D \<in> {..<2 ^ n}. bit D t}"
  then have b: "b < 2 ^ n" "bit b t" by auto
  show "unset_bit t b OR 2 ^ t = b" by (rule set_unset_bit [OF b(2)])
  show "unset_bit t b \<in> {m \<in> {..<2 ^ n}. \<not> bit m t}"
    using unset_bit_lt [OF b(1)] by (simp add: bit_unset_bit_iff)
qed

definition shapley_weight :: "nat \<Rightarrow> nat \<Rightarrow> rat" where
  "shapley_weight n k = of_int (fact k * fact (n - k - 1)) / of_int (fact n)"

lemma weight_balance:
  assumes "0 < k" "k < n"
  shows "of_nat k * shapley_weight n (k - 1) = of_nat (n - k) * shapley_weight n k"
proof -
  have 1: "(fact k :: rat) = of_nat k * fact (k - 1)" using assms by (simp add: fact_reduce)
  have 2: "(fact (n - k) :: rat) = of_nat (n - k) * fact (n - k - 1)"
    using assms by (simp add: fact_reduce)
  have 3: "n - (k - 1) - 1 = n - k" using assms by simp
  have A: "shapley_weight n (k - 1) = fact (k - 1) * fact (n - k) / fact n"
    unfolding shapley_weight_def 3 by simp
  have B: "shapley_weight n k = fact k * fact (n - k - 1) / fact n"
    unfolding shapley_weight_def by simp
  show ?thesis unfolding A B 1 2 by simp
qed

lemma weight_zero: "0 < n \<Longrightarrow> of_nat n * shapley_weight n 0 = 1"
  by (simp add: shapley_weight_def fact_reduce [of n])

lemma weight_full: "0 < n \<Longrightarrow> of_nat n * shapley_weight n (n - 1) = 1"
  by (simp add: shapley_weight_def fact_reduce [of n])


lemma popcount_le: "m < 2 ^ n \<Longrightarrow> popcount m \<le> n"
proof -
  assume "m < 2 ^ n"
  then have "popcount m = (\<Sum>k<n. if bit m k then 1 else 0)" by (rule popcount_sum)
  also have "\<dots> \<le> (\<Sum>k<n. 1)" by (intro sum_mono) simp
  finally show ?thesis by simp
qed

lemma popcount_eq_0: 
  assumes "m < 2 ^ n" "popcount m = 0" shows "m = 0"
proof (rule bit_eqI)
  fix k
  from assms have "(\<Sum>k<n. if bit m k then 1 else (0::nat)) = 0" by (simp add: popcount_sum)
  then have "\<forall>k<n. \<not> bit m k" by (auto split: if_splits)
  moreover from assms(1) have "\<forall>k. bit m k \<longrightarrow> k < n" by (simp add: lt_pow2_iff)
  ultimately show "bit m k = bit (0::nat) k" by auto
qed

lemma popcount_eq_n:
  assumes "m < 2 ^ n" "popcount m = n" shows "m = mask n"
proof -
  have all: "bit m k" if "k < n" for k
  proof (rule ccontr)
    assume nb: "\<not> bit m k"
    have "popcount m = (\<Sum>j<n. if bit m j then 1 else 0)" by (rule popcount_sum [OF assms(1)])
    also have "\<dots> = (\<Sum>j\<in>{..<n} - {k}. if bit m j then 1 else 0)"
      using that nb by (subst sum.remove [of _ k]) simp_all
    also have "\<dots> \<le> (\<Sum>j\<in>{..<n} - {k}. 1)" by (intro sum_mono) simp
    also have "\<dots> = n - 1" using that by simp
    finally show False using assms(2) that by simp
  qed
  show "m = mask n"
  proof (rule bit_eqI)
    fix k
    from assms(1) have "bit m k \<longrightarrow> k < n" by (simp add: lt_pow2_iff)
    with all show "bit m k = bit (mask n :: nat) k" by (auto simp: bit_mask_iff)
  qed
qed

lemma mask_lt_pow2: "(mask n :: nat) < 2 ^ n"
  by (simp add: mask_eq_exp_minus_1)

lemma popcount_full: "popcount (mask n) = n"
  by (simp add: popcount_sum [OF mask_lt_pow2] bit_mask_iff)


lemma sum_filter_else:
  fixes X :: "nat \<Rightarrow> rat"
  shows "(\<Sum>m<N. if P m then 0 else X m) = (\<Sum>m\<in>{m \<in> {..<N}. \<not> P m}. X m)"
proof -
  have "(\<Sum>m\<in>{m \<in> {..<N}. \<not> P m}. X m) = (\<Sum>m<N. if \<not> P m then X m else 0)"
    by (rule sum.inter_filter) simp
  also have "\<dots> = (\<Sum>m<N. if P m then 0 else X m)" by (intro sum.cong) auto
  finally show ?thesis by simp
qed

lemma sum_filter_then:
  fixes X :: "nat \<Rightarrow> rat"
  shows "(\<Sum>m<N. if P m then X m else 0) = (\<Sum>m\<in>{m \<in> {..<N}. P m}. X m)"
  by (rule sum.inter_filter [symmetric]) simp

lemma shapley_first_half:
  fixes V :: "nat \<Rightarrow> rat"
  assumes "t < n"
  shows "(\<Sum>m<2 ^ n. if bit m t then 0 else shapley_weight n (popcount m) * V (m OR 2 ^ t))
           = (\<Sum>D<2 ^ n. if bit D t then shapley_weight n (popcount D - 1) * V D else 0)"
proof -
  have "(\<Sum>m<2 ^ n. if bit m t then 0 else shapley_weight n (popcount m) * V (m OR 2 ^ t))
          = (\<Sum>m\<in>{m \<in> {..<2 ^ n}. \<not> bit m t}. shapley_weight n (popcount m) * V (m OR 2 ^ t))"
    by (rule sum_filter_else)
  also have "\<dots> = (\<Sum>m\<in>{m \<in> {..<2 ^ n}. \<not> bit m t}.
                      shapley_weight n (popcount (m OR 2 ^ t) - 1) * V (m OR 2 ^ t))"
    using assms by (intro sum.cong) (auto simp: popcount_set_bit(2))
  also have "\<dots> = (\<Sum>D\<in>{D \<in> {..<2 ^ n}. bit D t}. shapley_weight n (popcount D - 1) * V D)"
    by (rule reindex_set_bit [OF assms, of "\<lambda>D. shapley_weight n (popcount D - 1) * V D"])
  also have "\<dots> = (\<Sum>D<2 ^ n. if bit D t then shapley_weight n (popcount D - 1) * V D else 0)"
    by (rule sum_filter_then [symmetric])
  finally show ?thesis .
qed

lemma count_unset_bits:
  assumes "D < 2 ^ n"
  shows "(\<Sum>t<n. if bit D t then 0 else (1::nat)) = n - popcount D"
proof -
  have "(\<Sum>t<n. if bit D t then 0 else (1::nat)) + popcount D
          = (\<Sum>t<n. (if bit D t then 0 else 1) + (if bit D t then 1 else 0))"
    by (simp add: popcount_sum [OF assms] sum.distrib)
  also have "\<dots> = (\<Sum>t<n. 1)" by (intro sum.cong) auto
  finally show ?thesis by simp
qed


lemma sum_if_then_const:
  fixes x :: rat
  shows "(\<Sum>t<(n::nat). if P t then x else 0) = of_nat (\<Sum>t<n. if P t then 1 else 0) * x"
  by (induction n) (simp_all add: algebra_simps)

lemma sum_if_else_const:
  fixes x :: rat
  shows "(\<Sum>t<(n::nat). if P t then 0 else x) = of_nat (\<Sum>t<n. if P t then 0 else 1) * x"
  by (induction n) (simp_all add: algebra_simps)

lemma shapley_efficiency_core:
  fixes V :: "nat \<Rightarrow> rat"
  assumes n: "0 < n"
  shows "(\<Sum>t<n. \<Sum>m<2 ^ n.
            if bit m t then 0 else shapley_weight n (popcount m) * (V (m OR 2 ^ t) - V m))
          = V (mask n) - V 0"
proof -
  define c :: "nat \<Rightarrow> rat" where
    "c k = of_nat k * shapley_weight n (k - 1) - of_nat (n - k) * shapley_weight n k" for k
  define h where "h D = shapley_weight n (popcount D - 1) * V D" for D
  define g where "g D = shapley_weight n (popcount D) * V D" for D
  have inner: "(\<Sum>m<2 ^ n. if bit m t then 0
                  else shapley_weight n (popcount m) * (V (m OR 2 ^ t) - V m))
      = (\<Sum>D<2 ^ n. if bit D t then h D else 0) - (\<Sum>D<2 ^ n. if bit D t then 0 else g D)"
    if "t < n" for t
  proof -
    have "(\<Sum>m<2 ^ n. if bit m t then 0
                  else shapley_weight n (popcount m) * (V (m OR 2 ^ t) - V m))
        = (\<Sum>m<2 ^ n. (if bit m t then 0 else shapley_weight n (popcount m) * V (m OR 2 ^ t))
                     - (if bit m t then 0 else g m))"
      by (intro sum.cong) (auto simp: algebra_simps g_def)
    also have "\<dots> = (\<Sum>m<2 ^ n. if bit m t then 0
                          else shapley_weight n (popcount m) * V (m OR 2 ^ t))
                   - (\<Sum>m<2 ^ n. if bit m t then 0 else g m)"
      by (rule sum_subtractf)
    finally show ?thesis
      unfolding shapley_first_half [OF that] h_def .
  qed
  have "(\<Sum>t<n. \<Sum>m<2 ^ n.
            if bit m t then 0 else shapley_weight n (popcount m) * (V (m OR 2 ^ t) - V m))
      = (\<Sum>t<n. (\<Sum>D<2 ^ n. if bit D t then h D else 0)
                - (\<Sum>D<2 ^ n. if bit D t then 0 else g D))"
    by (intro sum.cong refl inner) simp
  also have "\<dots> = (\<Sum>t<n. \<Sum>D<2 ^ n. if bit D t then h D else 0)
                 - (\<Sum>t<n. \<Sum>D<2 ^ n. if bit D t then 0 else g D)"
    by (rule sum_subtractf)
  also have "\<dots> = (\<Sum>D<2 ^ n. \<Sum>t<n. if bit D t then h D else 0)
                 - (\<Sum>D<2 ^ n. \<Sum>t<n. if bit D t then 0 else g D)"
    by (simp only: sum.swap [of _ "{..<2 ^ n}" "{..<n}"])
  also have "\<dots> = (\<Sum>D<2 ^ n. of_nat (popcount D) * h D)
                 - (\<Sum>D<2 ^ n. of_nat (n - popcount D) * g D)"
  proof -
    have 1: "(\<Sum>t<n. if bit D t then h D else 0) = of_nat (popcount D) * h D"
      if "D \<in> {..<2 ^ n}" for D
      using that by (simp add: sum_if_then_const popcount_sum)
    have 2: "(\<Sum>t<n. if bit D t then 0 else g D) = of_nat (n - popcount D) * g D"
      if "D \<in> {..<2 ^ n}" for D
      using that by (simp add: sum_if_else_const count_unset_bits)
    show ?thesis by (simp only: sum.cong [OF refl 1] sum.cong [OF refl 2])
  qed
  also have "\<dots> = (\<Sum>D<2 ^ n. c (popcount D) * V D)"
    by (simp add: sum_subtractf [symmetric] c_def h_def g_def algebra_simps)
  also have "\<dots> = (\<Sum>D\<in>{0, mask n}. c (popcount D) * V D)"
  proof (rule sum.mono_neutral_right)
    show "finite {..<(2::nat) ^ n}" by simp
    show "{0, mask n} \<subseteq> {..<(2::nat) ^ n}" by (simp add: mask_lt_pow2)
    show "\<forall>D\<in>{..<2 ^ n} - {0, mask n}. c (popcount D) * V D = 0"
    proof
      fix D :: nat assume "D \<in> {..<2 ^ n} - {0, mask n}"
      then have D: "D < 2 ^ n" "D \<noteq> 0" "D \<noteq> mask n" by auto
      from D(1,2) have "popcount D \<noteq> 0" using popcount_eq_0 by blast
      moreover from D(1,3) have "popcount D \<noteq> n" using popcount_eq_n by blast
      moreover from D(1) have "popcount D \<le> n" by (rule popcount_le)
      ultimately have "0 < popcount D" "popcount D < n" by simp_all
      then have "c (popcount D) = 0" unfolding c_def using weight_balance [of "popcount D" n] by simp
      then show "c (popcount D) * V D = 0" by simp
    qed
  qed
  also have "\<dots> = c 0 * V 0 + c n * V (mask n)"
  proof -
    have "bit (mask n :: nat) 0" using n by (simp add: bit_mask_iff)
    then have "(0::nat) \<noteq> mask n" by (metis bit_0_eq bot_apply bot_bool_def)
    then show ?thesis by (simp add: popcount_full popcount.simps [of 0])
  qed
  also have "\<dots> = V (mask n) - V 0"
  proof -
    have c0: "c 0 = - 1" unfolding c_def using weight_zero [OF n] by simp
    have cn: "c n = 1" unfolding c_def using weight_full [OF n] by simp
    show ?thesis by (simp add: c0 cn)
  qed
  finally show ?thesis .
qed

lemma and_nonzero_iff: "(a AND b \<noteq> 0) \<longleftrightarrow> (\<exists>k. bit a k \<and> bit b k)" for a b :: nat
  by (auto simp: bit_eq_iff bit_and_iff)

lemma bit_mask_fold:
  "bit (fold (\<lambda>i m. m OR push_bit i 1) S m0) k \<longleftrightarrow> k \<in> set S \<or> bit (m0::nat) k"
  by (induction S arbitrary: m0) (auto simp: bit_or_iff bit_push_bit_iff bit_1_iff bit_exp_iff)

lemma and_pow2_iff: "(m AND 2 ^ t \<noteq> 0) \<longleftrightarrow> bit m t" for m :: nat
  unfolding and_nonzero_iff by (simp add: bit_pow2_nat)

lemma fact_table_prefix:
  "j \<le> n \<Longrightarrow>
   length (fold (\<lambda>i fact. fact[i := fact ! (i - 1) * int i]) [1..<j + 1] (replicate (n + 1) 1)) = n + 1
   \<and> (\<forall>k\<le>j. fold (\<lambda>i fact. fact[i := fact ! (i - 1) * int i]) [1..<j + 1] (replicate (n + 1) 1) ! k
        = fact k)"
proof (induction j)
  case 0
  then show ?case by simp
next
  case (Suc j)
  let ?F = "fold (\<lambda>i fact. fact[i := fact ! (i - 1) * int i]) [1..<j + 1] (replicate (n + 1) 1)"
  from Suc have IH: "length ?F = n + 1" "\<forall>k\<le>j. ?F ! k = fact k" by simp_all
  have step: "fold (\<lambda>i fact. fact[i := fact ! (i - 1) * int i]) [1..<Suc j + 1] (replicate (n + 1) 1)
                = ?F[Suc j := ?F ! j * int (Suc j)]"
    by simp
  show ?case unfolding step
  proof (intro conjI allI impI)
    show "length (?F[Suc j := ?F ! j * int (Suc j)]) = n + 1" using IH(1) by simp
    fix k assume "k \<le> Suc j"
    show "?F[Suc j := ?F ! j * int (Suc j)] ! k = fact k"
    proof (cases "k = Suc j")
      case True
      with Suc.prems IH show ?thesis by (simp add: algebra_simps)
    next
      case False
      with \<open>k \<le> Suc j\<close> IH(2) show ?thesis by simp
    qed
  qed
qed

lemma fact_table_nth: "k \<le> n \<Longrightarrow> fact_table n ! k = fact k"
  unfolding fact_table_def using fact_table_prefix [of n n] by simp

lemma fold_add_sum:
  fixes g :: "'a \<Rightarrow> rat"
  assumes "\<And>x s. x \<in> set xs \<Longrightarrow> f x s = s + g x"
  shows "fold f xs a = a + sum_list (map g xs)"
  using assms by (induction xs arbitrary: a) (simp_all add: algebra_simps)

lemma sum_list_upt: "sum_list (map g [0..<N]) = (\<Sum>m<N. g m)" for g :: "nat \<Rightarrow> rat"
  by (simp add: interv_sum_list_conv_sum_set_nat atLeast0LessThan)


definition coalition_value :: "nat list \<Rightarrow> nat \<Rightarrow> int" where
  "coalition_value support_masks m =
     (if list_all (\<lambda>sm. m AND sm \<noteq> 0) support_masks then 1 else 0)"

lemma v_mask_nth:
  "m < 2 ^ n \<Longrightarrow>
   fst (compute_v_masks ss n) ! m = coalition_value (support_sets_to_masks ss n) m"
  by (simp add: compute_v_masks_def Let_def coalition_value_def)

lemma exact_shapley_step:
  assumes "t < n" "m < 2 ^ n"
  shows "(if m AND push_bit t 1 \<noteq> 0 then s
          else
            let k = popcount m;
                vC = fst (compute_v_masks ss n) ! m;
                vCt = fst (compute_v_masks ss n) ! (m OR push_bit t 1)
            in if vCt = vC then s
               else
                 let weight = of_int (fact_table n ! k * fact_table n ! (n - k - 1))
                                / of_int (fact_table n ! n)
                 in s + weight * of_int (vCt - vC))
         = s + (if bit m t then 0
                else shapley_weight n (popcount m)
                     * (of_int (coalition_value (support_sets_to_masks ss n) (m OR 2 ^ t))
                        - of_int (coalition_value (support_sets_to_masks ss n) m)))"
proof (cases "bit m t")
  case True
  then show ?thesis by (simp add: and_pow2_iff del: neq0_conv)
next
  case False
  have lt: "m OR 2 ^ t < 2 ^ n" by (rule popcount_set_bit(1) [OF assms(2,1) False])
  have k: "popcount m \<le> n" by (rule popcount_le [OF assms(2)])
  have w: "of_int (fact_table n ! popcount m * fact_table n ! (n - popcount m - 1))
             / of_int (fact_table n ! n) = shapley_weight n (popcount m)"
    using k by (simp add: fact_table_nth shapley_weight_def)
  have nb: "\<not> (m AND push_bit t 1 \<noteq> 0)" using False by (simp add: and_pow2_iff del: neq0_conv)
  show ?thesis
    unfolding Let_def w if_not_P [OF nb] if_not_P [OF False]
    by (simp add: v_mask_nth [OF assms(2)] v_mask_nth [OF lt])
qed

lemma exact_shapley_phi:
  assumes "0 < n"
  shows "exact_shapley ss n =
     map (\<lambda>t. \<Sum>m<2 ^ n. if bit m t then 0
                 else shapley_weight n (popcount m)
                      * (of_int (coalition_value (support_sets_to_masks ss n) (m OR 2 ^ t))
                         - of_int (coalition_value (support_sets_to_masks ss n) m)))
       [0..<n]"
proof -
  have "exact_shapley ss n =
     map (\<lambda>t. fold (\<lambda>m s.
            if m AND push_bit t 1 \<noteq> 0 then s
            else
              let k = popcount m;
                  vC = fst (compute_v_masks ss n) ! m;
                  vCt = fst (compute_v_masks ss n) ! (m OR push_bit t 1)
              in if vCt = vC then s
                 else
                   let weight = of_int (fact_table n ! k * fact_table n ! (n - k - 1))
                                  / of_int (fact_table n ! n)
                   in s + weight * of_int (vCt - vC))
          [0..<2 ^ n] 0) [0..<n]"
    using assms unfolding exact_shapley_def Let_def by simp
  also have "\<dots> = map (\<lambda>t. \<Sum>m<2 ^ n. if bit m t then 0
                 else shapley_weight n (popcount m)
                      * (of_int (coalition_value (support_sets_to_masks ss n) (m OR 2 ^ t))
                         - of_int (coalition_value (support_sets_to_masks ss n) m)))
       [0..<n]"
  proof (rule map_cong [OF refl])
    fix t assume "t \<in> set [0..<n]"
    then have t: "t < n" by simp
    show "fold (\<lambda>m s.
            if m AND push_bit t 1 \<noteq> 0 then s
            else
              let k = popcount m;
                  vC = fst (compute_v_masks ss n) ! m;
                  vCt = fst (compute_v_masks ss n) ! (m OR push_bit t 1)
              in if vCt = vC then s
                 else
                   let weight = of_int (fact_table n ! k * fact_table n ! (n - k - 1))
                                  / of_int (fact_table n ! n)
                   in s + weight * of_int (vCt - vC))
          [0..<2 ^ n] 0
        = (\<Sum>m<2 ^ n. if bit m t then 0
                 else shapley_weight n (popcount m)
                      * (of_int (coalition_value (support_sets_to_masks ss n) (m OR 2 ^ t))
                         - of_int (coalition_value (support_sets_to_masks ss n) m)))"
      by (subst fold_add_sum [OF exact_shapley_step [OF t]]) (simp_all add: sum_list_upt)
  qed
  finally show ?thesis .
qed

lemma support_mask_bit:
  "sm \<in> set (support_sets_to_masks ss n) \<longleftrightarrow> (\<exists>S\<in>set ss. sm = fold (\<lambda>i m. m OR push_bit i 1) S 0)"
  by (auto simp: support_sets_to_masks_def)

lemma support_set_member:
  assumes "\<forall>S\<in>set ss. S \<noteq> [] \<and> set S \<subseteq> {0..<n}" and "S \<in> set ss"
  obtains j where "j \<in> set S" "j < n"
proof -
  from assms have S: "S \<noteq> []" "set S \<subseteq> {0..<n}" by auto
  then obtain j where "j \<in> set S" by (cases S) auto
  with S(2) that show ?thesis by auto
qed

lemma coalition_value_empty:
  assumes "ss \<noteq> []"
  shows "coalition_value (support_sets_to_masks ss n) 0 = 0"
proof -
  from assms obtain S rest where "ss = S # rest" by (cases ss) auto
  then show ?thesis by (simp add: coalition_value_def support_sets_to_masks_def)
qed

lemma coalition_value_full:
  assumes "\<forall>S\<in>set ss. S \<noteq> [] \<and> set S \<subseteq> {0..<n}"
  shows "coalition_value (support_sets_to_masks ss n) (mask n) = 1"
proof -
  have "mask n AND sm \<noteq> 0" if "sm \<in> set (support_sets_to_masks ss n)" for sm
  proof -
    from that obtain S where S: "S \<in> set ss" "sm = fold (\<lambda>i m. m OR push_bit i 1) S 0"
      by (auto simp: support_mask_bit)
    from support_set_member [OF assms S(1)] obtain j where j: "j \<in> set S" "j < n" .
    have "bit sm j" unfolding S(2) bit_mask_fold using j(1) by simp
    with j(2) have "bit (mask n :: nat) j \<and> bit sm j" by (simp add: bit_mask_iff)
    then show ?thesis unfolding and_nonzero_iff by blast
  qed
  then show ?thesis by (simp add: coalition_value_def list_all_iff del: neq0_conv)
qed

lemma exact_shapley_sum:
  assumes "ss \<noteq> []" and "\<forall>S\<in>set ss. S \<noteq> [] \<and> set S \<subseteq> {0..<n}"
  shows "sum_list (exact_shapley ss n) = 1"
proof -
  from assms obtain S where "S \<in> set ss" by (cases ss) auto
  with assms(2) have "S \<noteq> []" "set S \<subseteq> {0..<n}" by auto
  then have n: "0 < n" by (cases S) auto
  have "sum_list (exact_shapley ss n)
      = (\<Sum>t<n. \<Sum>m<2 ^ n. if bit m t then 0
                 else shapley_weight n (popcount m)
                      * (of_int (coalition_value (support_sets_to_masks ss n) (m OR 2 ^ t))
                         - of_int (coalition_value (support_sets_to_masks ss n) m)))"
    unfolding exact_shapley_phi [OF n] by (rule sum_list_upt)
  also have "\<dots> = of_int (coalition_value (support_sets_to_masks ss n) (mask n))
                  - of_int (coalition_value (support_sets_to_masks ss n) 0)"
    by (rule shapley_efficiency_core [OF n])
  also have "\<dots> = 1"
    by (simp add: coalition_value_empty [OF assms(1)] coalition_value_full [OF assms(2)])
  finally show ?thesis .
qed

lemma sum_list_bump:
  "i < length xs \<Longrightarrow> sum_list (xs[i := xs ! i + 1]) = sum_list xs + (1::rat)"
proof (induction xs arbitrary: i)
  case Nil then show ?case by simp
next
  case (Cons x xs) then show ?case by (cases i) simp_all
qed

lemma walk_credits_one:
  assumes "\<not> list_all (\<lambda>sm. cm AND sm \<noteq> 0) masks"
    and "\<forall>sm\<in>set masks. cm AND sm \<noteq> 0 \<or> (\<exists>j\<in>set perm. bit sm j)"
  shows "\<exists>idx\<in>set perm. walk masks perm cm 0 counts = counts[idx := counts ! idx + 1]"
  using assms
proof (induction perm arbitrary: cm)
  case Nil
  then show ?case by (auto simp: list_all_iff)
next
  case (Cons idx perm)
  let ?cm = "cm OR push_bit idx 1"
  show ?case
  proof (cases "list_all (\<lambda>sm. ?cm AND sm \<noteq> 0) masks")
    case True
    then show ?thesis by (simp add: Let_def)
  next
    case False
    have "\<forall>sm\<in>set masks. ?cm AND sm \<noteq> 0 \<or> (\<exists>j\<in>set perm. bit sm j)"
    proof
      fix sm assume sm: "sm \<in> set masks"
      from Cons.prems(2) sm have "cm AND sm \<noteq> 0 \<or> (\<exists>j\<in>set (idx # perm). bit sm j)"
        by blast
      then consider "cm AND sm \<noteq> 0" | "bit sm idx" | "\<exists>j\<in>set perm. bit sm j"
        by (auto simp del: neq0_conv)
      then show "?cm AND sm \<noteq> 0 \<or> (\<exists>j\<in>set perm. bit sm j)"
      proof cases
        case 1
        then show ?thesis unfolding and_nonzero_iff by (auto simp: bit_or_iff)
      next
        case 2
        then have "bit ?cm idx \<and> bit sm idx" by (simp add: bit_or_iff bit_pow2_nat)
        then show ?thesis unfolding and_nonzero_iff by blast
      next
        case 3
        then show ?thesis by simp
      qed
    qed
    from Cons.IH [OF False this] obtain j where
      "j \<in> set perm" "walk masks perm ?cm 0 counts = counts[j := counts ! j + 1]" by blast
    with False show ?thesis by (auto simp: Let_def)
  qed
qed

lemma walk_sample:
  assumes "ss \<noteq> []" and "\<forall>S\<in>set ss. S \<noteq> [] \<and> set S \<subseteq> {0..<n}" and "set perm = {0..<n}"
  shows "\<exists>idx<n. walk (support_sets_to_masks ss n) perm 0 0 counts = counts[idx := counts ! idx + 1]"
proof -
  let ?masks = "support_sets_to_masks ss n"
  from assms(1) obtain S rest where "ss = S # rest" by (cases ss) auto
  then have 1: "\<not> list_all (\<lambda>sm. 0 AND sm \<noteq> 0) ?masks"
    by (simp add: support_sets_to_masks_def)
  have 2: "\<forall>sm\<in>set ?masks. 0 AND sm \<noteq> 0 \<or> (\<exists>j\<in>set perm. bit sm j)"
  proof
    fix sm assume "sm \<in> set ?masks"
    then obtain S where S: "S \<in> set ss" "sm = fold (\<lambda>i m. m OR push_bit i 1) S 0"
      by (auto simp: support_mask_bit)
    from support_set_member [OF assms(2) S(1)] obtain j where j: "j \<in> set S" "j < n" .
    have "bit sm j" unfolding S(2) bit_mask_fold using j(1) by simp
    moreover have "j \<in> set perm" using j(2) by (simp add: assms(3))
    ultimately show "0 AND sm \<noteq> 0 \<or> (\<exists>j\<in>set perm. bit sm j)" by blast
  qed
  from walk_credits_one [OF 1 2, of counts] show ?thesis using assms(3) by auto
qed

lemma sample_loop:
  assumes "ss \<noteq> []" and "\<forall>S\<in>set ss. S \<noteq> [] \<and> set S \<subseteq> {0..<n}"
    and "\<forall>i. set (rng i) = {0..<n}"
    and "length counts = n" and "\<forall>c\<in>set counts. 0 \<le> c"
  shows "length (fold (\<lambda>i counts. walk (support_sets_to_masks ss n) (rng i) 0 0 counts) is counts) = n
       \<and> (\<forall>c\<in>set (fold (\<lambda>i counts. walk (support_sets_to_masks ss n) (rng i) 0 0 counts) is counts). 0 \<le> c)
       \<and> sum_list (fold (\<lambda>i counts. walk (support_sets_to_masks ss n) (rng i) 0 0 counts) is counts)
           = sum_list counts + of_nat (length is)"
  using assms(4,5)
proof (induction "is" arbitrary: counts)
  case Nil
  then show ?case by simp
next
  case (Cons i "is")
  from assms(3) have "set (rng i) = {0..<n}" by blast
  from walk_sample [OF assms(1,2) this, of counts] obtain idx where idx: "idx < n"
    "walk (support_sets_to_masks ss n) (rng i) 0 0 counts = counts[idx := counts ! idx + 1]"
    by blast
  let ?c = "counts[idx := counts ! idx + 1]"
  have len: "length ?c = n" using Cons.prems by simp
  have "0 \<le> counts ! idx" using Cons.prems idx(1) by simp
  then have nonneg: "\<forall>c\<in>set ?c. 0 \<le> c"
    using Cons.prems(2) by (auto dest!: set_update_subset_insert [THEN subsetD])
  have sum: "sum_list ?c = sum_list counts + 1"
    using Cons.prems(1) idx(1) by (simp add: sum_list_bump)
  from Cons.IH [OF len nonneg] show ?case by (simp add: idx(2) sum)
qed

lemma sum_list_divide: "sum_list (map (\<lambda>c. c / d) xs) = sum_list xs / (d::rat)"
  by (induction xs) (simp_all add: add_divide_distrib)

lemma approx_shapley_estimates:
  assumes "ss \<noteq> []" and "\<forall>S\<in>set ss. S \<noteq> [] \<and> set S \<subseteq> {0..<n}"
    and "\<forall>i. set (rng i) = {0..<n}" and "1 \<le> num_samples"
  shows "\<exists>phi. approx_shapley ss n num_samples rng = map Fin phi \<and> length phi = n
           \<and> (\<forall>x\<in>set phi. 0 \<le> x) \<and> sum_list phi = 1"
proof -
  from assms(1) obtain S where "S \<in> set ss" by (cases ss) auto
  from support_set_member [OF assms(2) this] have n: "n \<noteq> 0" by auto
  define counts where
    "counts = fold (\<lambda>i counts. walk (support_sets_to_masks ss n) (rng i) 0 0 counts)
                [0..<nat num_samples] (replicate n 0)"
  define phi where "phi = map (\<lambda>c. c / of_int num_samples) counts"
  have loop: "length counts = n" "\<forall>c\<in>set counts. 0 \<le> c"
    "sum_list counts = of_nat (nat num_samples)"
    using sample_loop [OF assms(1,2,3), of "replicate n 0" "[0..<nat num_samples]"]
    unfolding counts_def by (simp_all add: sum_list_replicate)
  have "approx_shapley ss n num_samples rng = map (\<lambda>c. np_divide c num_samples) counts"
    using n by (simp add: approx_shapley_def counts_def)
  also have "\<dots> = map Fin phi"
    using assms(4) by (simp add: phi_def np_divide_def)
  finally have 1: "approx_shapley ss n num_samples rng = map Fin phi" .
  have 2: "length phi = n" by (simp add: phi_def loop(1))
  have 3: "\<forall>x\<in>set phi. 0 \<le> x" using loop(2) assms(4) by (auto simp: phi_def)
  have "sum_list phi = sum_list counts / of_int num_samples"
    unfolding phi_def by (rule sum_list_divide)
  also have "\<dots> = 1" using assms(4) by (simp add: loop(3))
  finally have 4: "sum_list phi = 1" .
  from 1 2 3 4 show ?thesis by blast
qed


text \<open>
  C1. For every non-empty family of non-empty subsets of the universe \<open>{0..<n}\<close>, the exact
  Shapley values sum to 1 (so in particular to within \<open>1e-9\<close>), and the Monte-Carlo
  estimates computed with the engine's sample count \<open>N_SAMPLES\<close> are finite numbers that sum
  to 1 as well, whatever permutations the generator draws. Floats are exact rationals here.
\<close>

theorem shapley_values_sum_to_one:
  assumes "support_sets \<noteq> []"
    and "\<forall>S\<in>set support_sets. S \<noteq> [] \<and> set S \<subseteq> {0..<n}"
    and "\<forall>i. set (rng i) = {0..<n}"
  shows "sum_list (exact_shapley support_sets n) = 1
       \<and> \<bar>sum_list (exact_shapley support_sets n) - 1\<bar> \<le> 1 / 10 ^ 9
       \<and> (\<exists>phi. approx_shapley support_sets n N_SAMPLES rng = map Fin phi
                \<and> sum_list phi = 1)"
proof -
  have "sum_list (exact_shapley support_sets n) = 1"
    by (rule exact_shapley_sum [OF assms(1,2)])
  moreover have "1 \<le> N_SAMPLES" by (simp add: N_SAMPLES_def)
  from approx_shapley_estimates [OF assms this]
  have "\<exists>phi. approx_shapley support_sets n N_SAMPLES rng = map Fin phi \<and> sum_list phi = 1"
    by blast
  ultimately show ?thesis by simp
qed

theorem shapley_values_sum_to_one_witness:
  "exact_shapley [[0, 1]] 2 = [1 / 2, 1 / 2]
   \<and> sum_list (exact_shapley [[0, 1]] 2) = 1
   \<and> (\<exists>phi. approx_shapley [[0, 1]] 2 N_SAMPLES (identity_draws 2) = map Fin phi
            \<and> sum_list phi = 1)"
proof -
  have h1: "[[0, 1 :: nat]] \<noteq> []" by simp
  have h2: "\<forall>S\<in>set [[0, 1 :: nat]]. S \<noteq> [] \<and> set S \<subseteq> {0..<2}" by simp
  have h3: "\<forall>i. set (identity_draws 2 i) = {0..<2}" by (simp add: identity_draws_def)
  have v: "exact_shapley [[0, 1]] 2 = [1 / 2, 1 / 2]" by code_simp
  show ?thesis using v shapley_values_sum_to_one [OF h1 h2 h3] by simp
qed

subsection \<open>The estimator in float64\<close>

lemma coalition_value_cases: "coalition_value masks m = 0 \<or> coalition_value masks m = 1"
  by (simp add: coalition_value_def)

lemma coalition_value_mono:
  assumes "coalition_value masks a = 1" and "\<forall>k. bit a k \<longrightarrow> bit b k"
  shows "coalition_value masks b = 1"
proof -
  from assms(1) have "list_all (\<lambda>sm. a AND sm \<noteq> 0) masks"
    by (simp add: coalition_value_def split: if_splits)
  then have "\<forall>sm\<in>set masks. \<exists>k. bit a k \<and> bit sm k"
    unfolding list_all_iff and_nonzero_iff .
  with assms(2) have "\<forall>sm\<in>set masks. \<exists>k. bit b k \<and> bit sm k" by blast
  then have "list_all (\<lambda>sm. b AND sm \<noteq> 0) masks"
    unfolding list_all_iff and_nonzero_iff .
  then show ?thesis by (simp add: coalition_value_def)
qed

lemma walk_float64_first_hit:
  assumes "coalition_value masks cm = 0"
    and "coalition_value masks (fold (\<lambda>idx m. m OR push_bit idx 1) perm cm) = 1"
  shows "\<exists>j<length perm.
           coalition_value masks (fold (\<lambda>idx m. m OR push_bit idx 1) (take j perm) cm) = 0
         \<and> coalition_value masks (fold (\<lambda>idx m. m OR push_bit idx 1) (take (Suc j) perm) cm) = 1
         \<and> walk_float64 masks perm cm 0 counts
             = counts[perm ! j := double_round (counts ! (perm ! j) + 1)]"
  using assms
proof (induction perm arbitrary: cm)
  case Nil
  then show ?case by simp
next
  case (Cons idx perm)
  define cm' where "cm' = cm OR push_bit idx 1"
  have step: "walk_float64 masks (idx # perm) cm 0 counts
      = (if coalition_value masks cm' = 1 then counts[idx := double_round (counts ! idx + 1)]
         else walk_float64 masks perm cm' 0 counts)"
    by (simp add: Let_def coalition_value_def cm'_def)
  show ?case
  proof (cases "coalition_value masks cm' = 1")
    case True
    have "coalition_value masks (fold (\<lambda>idx m. m OR push_bit idx 1) (take 0 (idx # perm)) cm) = 0"
      using Cons.prems(1) by simp
    moreover have "coalition_value masks
        (fold (\<lambda>idx m. m OR push_bit idx 1) (take (Suc 0) (idx # perm)) cm) = 1"
      using True by (simp add: cm'_def)
    moreover have "walk_float64 masks (idx # perm) cm 0 counts
        = counts[(idx # perm) ! 0 := double_round (counts ! ((idx # perm) ! 0) + 1)]"
      unfolding step using True by simp
    ultimately show ?thesis by (intro exI [of _ 0]) simp
  next
    case False
    with coalition_value_cases [of masks cm'] have z: "coalition_value masks cm' = 0" by blast
    have full: "coalition_value masks (fold (\<lambda>idx m. m OR push_bit idx 1) perm cm') = 1"
      using Cons.prems(2) by (simp add: cm'_def)
    from Cons.IH [OF z full] obtain j where j: "j < length perm"
      "coalition_value masks (fold (\<lambda>idx m. m OR push_bit idx 1) (take j perm) cm') = 0"
      "coalition_value masks (fold (\<lambda>idx m. m OR push_bit idx 1) (take (Suc j) perm) cm') = 1"
      "walk_float64 masks perm cm' 0 counts
         = counts[perm ! j := double_round (counts ! (perm ! j) + 1)]"
      by blast
    have "Suc j < length (idx # perm)" using j(1) by simp
    moreover have "coalition_value masks
        (fold (\<lambda>idx m. m OR push_bit idx 1) (take (Suc j) (idx # perm)) cm) = 0"
      using j(2) by (simp add: cm'_def)
    moreover have "coalition_value masks
        (fold (\<lambda>idx m. m OR push_bit idx 1) (take (Suc (Suc j)) (idx # perm)) cm) = 1"
      using j(3) by (simp add: cm'_def)
    moreover have "walk_float64 masks (idx # perm) cm 0 counts
        = counts[(idx # perm) ! Suc j := double_round (counts ! ((idx # perm) ! Suc j) + 1)]"
      unfolding step using False j(4) by simp
    ultimately show ?thesis by blast
  qed
qed

lemma coalition_value_full_perm:
  assumes "\<forall>S\<in>set ss. S \<noteq> [] \<and> set S \<subseteq> {0..<n}" and "set perm = {0..<n}"
  shows "coalition_value (support_sets_to_masks ss n) (prefix_mask perm) = 1"
proof -
  have "prefix_mask perm AND sm \<noteq> 0" if "sm \<in> set (support_sets_to_masks ss n)" for sm
  proof -
    from that obtain S where S: "S \<in> set ss" "sm = fold (\<lambda>i m. m OR push_bit i 1) S 0"
      by (auto simp: support_mask_bit)
    from support_set_member [OF assms(1) S(1)] obtain j where j: "j \<in> set S" "j < n" .
    have "bit sm j" unfolding S(2) bit_mask_fold using j(1) by simp
    moreover have "bit (prefix_mask perm) j"
      unfolding prefix_mask_def bit_mask_fold using j(2) assms(2) by simp
    ultimately show ?thesis unfolding and_nonzero_iff by blast
  qed
  then show ?thesis by (simp add: coalition_value_def list_all_iff del: neq0_conv)
qed

text \<open>
  The walk along a permutation of the universe credits the element at the one position
  where \<open>v\<close> flips from 0 to 1.
\<close>

lemma walk_float64_sample:
  assumes "ss \<noteq> []" and "\<forall>S\<in>set ss. S \<noteq> [] \<and> set S \<subseteq> {0..<n}" and "set perm = {0..<n}"
  shows "\<exists>j<length perm.
           (\<forall>k\<le>length perm. coalition_value (support_sets_to_masks ss n) (prefix_mask (take k perm))
                               = (if k \<le> j then 0 else 1))
         \<and> perm ! j < n
         \<and> walk_float64 (support_sets_to_masks ss n) perm 0 0 counts
             = counts[perm ! j := double_round (counts ! (perm ! j) + 1)]"
proof -
  let ?masks = "support_sets_to_masks ss n"
  let ?v = "\<lambda>k. coalition_value ?masks (prefix_mask (take k perm))"
  have empty: "coalition_value ?masks 0 = 0" by (rule coalition_value_empty [OF assms(1)])
  have full: "coalition_value ?masks (fold (\<lambda>idx m. m OR push_bit idx 1) perm 0) = 1"
    using coalition_value_full_perm [OF assms(2,3)] by (simp add: prefix_mask_def)
  from walk_float64_first_hit [OF empty full, of counts] obtain j where
    j: "j < length perm" and v0: "?v j = 0" and v1: "?v (Suc j) = 1" and
    w: "walk_float64 ?masks perm 0 0 counts
          = counts[perm ! j := double_round (counts ! (perm ! j) + 1)]"
    unfolding prefix_mask_def by blast
  have mono: "?v k = 1 \<Longrightarrow> k \<le> k' \<Longrightarrow> ?v k' = 1" for k k'
  proof -
    assume 1: "?v k = 1" and le: "k \<le> k'"
    have "\<forall>i. bit (prefix_mask (take k perm)) i \<longrightarrow> bit (prefix_mask (take k' perm)) i"
      unfolding prefix_mask_def bit_mask_fold
      using set_take_subset_set_take [OF le, of perm] by auto
    from coalition_value_mono [OF 1 this] show "?v k' = 1" .
  qed
  have "?v k = (if k \<le> j then 0 else 1)" for k
  proof (cases "k \<le> j")
    case True
    have "?v k \<noteq> 1"
    proof
      assume "?v k = 1"
      from mono [OF this True] v0 show False by simp
    qed
    with coalition_value_cases [of ?masks "prefix_mask (take k perm)"] True show ?thesis by simp
  next
    case False
    then have "Suc j \<le> k" by simp
    from mono [OF v1 this] False show ?thesis by simp
  qed
  moreover have "perm ! j < n"
  proof -
    from j have "perm ! j \<in> set perm" by simp
    then show ?thesis by (simp add: assms(3))
  qed
  ultimately show ?thesis using j w by blast
qed

lemma elem_le_sum_list_nonneg:
  fixes xs :: "rat list"
  assumes "\<forall>y\<in>set xs. 0 \<le> y" and "i < length xs"
  shows "xs ! i \<le> sum_list xs"
  using assms
proof (induction xs arbitrary: i)
  case Nil
  then show ?case by simp
next
  case (Cons x xs)
  from Cons.prems(1) have x: "0 \<le> x" and xs: "\<forall>y\<in>set xs. 0 \<le> y" by simp_all
  from xs have s: "0 \<le> sum_list xs" by (intro sum_list_nonneg) simp
  show ?case
  proof (cases i)
    case 0
    then show ?thesis using s by simp
  next
    case (Suc i')
    with Cons.prems(2) have "i' < length xs" by simp
    from Cons.IH [OF xs this] show ?thesis using x Suc by simp
  qed
qed

text \<open>
  As long as fewer than \<open>2^53\<close> permutations are drawn, every count is a natural number that
  the increment \<open>+= 1.0\<close> keeps exact, and the counts add up to the number of draws.
\<close>

lemma sample_loop_float64:
  assumes "ss \<noteq> []" and "\<forall>S\<in>set ss. S \<noteq> [] \<and> set S \<subseteq> {0..<n}"
    and "\<forall>i. set (rng i) = {0..<n}"
    and "length counts = n" and "\<forall>c\<in>set counts. \<exists>k::nat. c = of_nat k"
    and "sum_list counts = of_nat p" and "p + length is < 2 ^ 53"
  shows "length (fold (\<lambda>i counts. walk_float64 (support_sets_to_masks ss n) (rng i) 0 0 counts)
                   is counts) = n
       \<and> (\<forall>c\<in>set (fold (\<lambda>i counts. walk_float64 (support_sets_to_masks ss n) (rng i) 0 0 counts)
                      is counts). \<exists>k::nat. c = of_nat k)
       \<and> sum_list (fold (\<lambda>i counts. walk_float64 (support_sets_to_masks ss n) (rng i) 0 0 counts)
                     is counts)
           = of_nat (p + length is)"
  using assms(4,5,6,7)
proof (induction "is" arbitrary: counts p)
  case Nil
  then show ?case by simp
next
  case (Cons i "is")
  from assms(3) have "set (rng i) = {0..<n}" by blast
  from walk_float64_sample [OF assms(1,2) this, of counts] obtain j where
    idx: "rng i ! j < n" and
    w: "walk_float64 (support_sets_to_masks ss n) (rng i) 0 0 counts
          = counts[rng i ! j := double_round (counts ! (rng i ! j) + 1)]"
    by blast
  define idx where "idx = rng i ! j"
  have lt: "idx < length counts" using idx Cons.prems(1) by (simp add: idx_def)
  then have "counts ! idx \<in> set counts" by simp
  with Cons.prems(2) obtain k :: nat where k: "counts ! idx = of_nat k" by blast
  have nonneg: "\<forall>y\<in>set counts. 0 \<le> y"
  proof
    fix y assume "y \<in> set counts"
    with Cons.prems(2) obtain k' :: nat where "y = of_nat k'" by blast
    then show "0 \<le> y" by simp
  qed
  from elem_le_sum_list_nonneg [OF nonneg lt] have "(of_nat k :: rat) \<le> of_nat p"
    by (simp add: k Cons.prems(3))
  then have "k \<le> p" by (simp only: of_nat_le_iff)
  with Cons.prems(4) have "Suc k < 2 ^ 53" by simp
  from double_round_of_nat [OF this] have exact: "double_round (counts ! idx + 1) = counts ! idx + 1"
    by (simp add: k add.commute)
  let ?c = "counts[idx := counts ! idx + 1]"
  have w': "walk_float64 (support_sets_to_masks ss n) (rng i) 0 0 counts = ?c"
    using w exact by (simp add: idx_def)
  have len: "length ?c = n" using Cons.prems(1) by simp
  have nat: "\<forall>c\<in>set ?c. \<exists>k::nat. c = of_nat k"
  proof
    fix c assume "c \<in> set ?c"
    then have "c = counts ! idx + 1 \<or> c \<in> set counts"
      by (auto dest!: set_update_subset_insert [THEN subsetD])
    then show "\<exists>k::nat. c = of_nat k"
    proof
      assume "c = counts ! idx + 1"
      then have "c = of_nat (Suc k)" by (simp add: k add.commute)
      then show ?thesis by blast
    next
      assume "c \<in> set counts"
      with Cons.prems(2) show ?thesis by blast
    qed
  qed
  have sum: "sum_list ?c = of_nat (Suc p)"
    using sum_list_bump [OF lt] by (simp add: Cons.prems(3))
  have "Suc p + length is < 2 ^ 53" using Cons.prems(4) by simp
  from Cons.IH [OF len nat sum this] show ?case by (simp add: w')
qed

lemma approx_shapley_float64_estimates:
  assumes "ss \<noteq> []" and "\<forall>S\<in>set ss. S \<noteq> [] \<and> set S \<subseteq> {0..<n}"
    and "\<forall>i. set (rng i) = {0..<n}" and "1 \<le> num_samples" and "num_samples < 2 ^ 53"
  shows "sum_list (fold (\<lambda>i counts. walk_float64 (support_sets_to_masks ss n) (rng i) 0 0 counts)
                     [0..<nat num_samples] (replicate n 0)) = of_int num_samples
       \<and> (\<exists>phi. approx_shapley_float64 ss n num_samples rng = map Fin phi \<and> length phi = n
              \<and> (\<forall>x\<in>set phi. 0 \<le> x) \<and> \<bar>sum_list phi - 1\<bar> \<le> unit_roundoff)"
proof -
  from assms(1) obtain S where "S \<in> set ss" by (cases ss) auto
  from support_set_member [OF assms(2) this] have n: "n \<noteq> 0" by auto
  define N :: rat where "N = of_int num_samples"
  have N: "1 \<le> N" using assms(4) by (simp add: N_def)
  define counts where
    "counts = fold (\<lambda>i counts. walk_float64 (support_sets_to_masks ss n) (rng i) 0 0 counts)
                [0..<nat num_samples] (replicate n 0)"
  define phi where "phi = map (\<lambda>c. double_round (c / N)) counts"
  have small: "0 + length [0..<nat num_samples] < 2 ^ 53"
  proof -
    have "int (nat num_samples) < 2 ^ 53" using assms(4,5) by simp
    then have "nat num_samples < 2 ^ 53" by (simp only: of_nat_less_numeral_power_cancel_iff)
    then show ?thesis by simp
  qed
  have init: "\<forall>c\<in>set (replicate n (0::rat)). \<exists>k::nat. c = of_nat k" by auto
  have "sum_list (replicate n (0::rat)) = of_nat 0" by (simp add: sum_list_replicate)
  from sample_loop_float64 [OF assms(1,2,3) _ init this small]
  have loop: "length counts = n" "\<forall>c\<in>set counts. \<exists>k::nat. c = of_nat k"
    "sum_list counts = of_nat (nat num_samples)"
    unfolding counts_def by simp_all
  have total: "sum_list counts = N" using loop(3) assms(4) by (simp add: N_def)
  have nonneg: "\<forall>c\<in>set counts. 0 \<le> c"
  proof
    fix c assume "c \<in> set counts"
    with loop(2) obtain k :: nat where "c = of_nat k" by blast
    then show "0 \<le> c" by simp
  qed
  have dv: "double_round (of_int num_samples) = N"
    unfolding N_def using assms(4,5) by (intro double_round_of_int) simp_all
  have "approx_shapley_float64 ss n num_samples rng
          = map (\<lambda>c. np_divide_float64 c num_samples) counts"
    using n by (simp add: approx_shapley_float64_def counts_def)
  also have "\<dots> = map Fin phi"
    using N by (simp add: phi_def np_divide_float64_def dv)
  finally have 1: "approx_shapley_float64 ss n num_samples rng = map Fin phi" .
  have 2: "length phi = n" by (simp add: phi_def loop(1))
  have 3: "\<forall>x\<in>set phi. 0 \<le> x"
    using nonneg N by (auto simp: phi_def intro!: double_round_nonneg)
  have "\<forall>c\<in>set counts. (1 - unit_roundoff) / N * c \<le> double_round (c / N)
                        \<and> double_round (c / N) \<le> (1 + unit_roundoff) / N * c"
  proof
    fix c assume "c \<in> set counts"
    with nonneg N have "0 \<le> c / N" by simp
    from double_round_bounds [OF this]
    show "(1 - unit_roundoff) / N * c \<le> double_round (c / N)
          \<and> double_round (c / N) \<le> (1 + unit_roundoff) / N * c"
      by simp
  qed
  from sum_list_map_bounds [OF this]
  have "(1 - unit_roundoff) / N * N \<le> sum_list phi" "sum_list phi \<le> (1 + unit_roundoff) / N * N"
    by (simp_all add: phi_def total)
  with N have 4: "\<bar>sum_list phi - 1\<bar> \<le> unit_roundoff" by (simp add: abs_le_iff)
  from 1 2 3 4 total show ?thesis unfolding counts_def N_def by blast
qed


text \<open>
  C10, as stated, fails: the estimates are float64 quotients and do not sum to exactly 1.
  With the single support set \<open>{0, 1, 2}\<close> the first element of every drawn permutation is
  credited. Six draws that start with 0, 1, 1, 1, 1, 2 give the counts \<open>[1, 4, 1]\<close>, and
  the estimates \<open>1/6, 4/6, 1/6\<close> rounded to doubles sum to \<open>1 - 2^-54\<close> as real numbers, and
  to \<open>0.9999999999999999\<close> when they are added as doubles.
\<close>

theorem approx_shapley_rounding_counterexample:
  "approx_shapley_float64 [[0, 1, 2]] 3 6 skewed_draws
     = [Fin (6004799503160661 / 36028797018963968), Fin (6004799503160661 / 9007199254740992),
        Fin (6004799503160661 / 36028797018963968)]
   \<and> sum_list [6004799503160661 / 36028797018963968, 6004799503160661 / 9007199254740992,
               6004799503160661 / 36028797018963968 :: rat] = 1 - 1 / 2 ^ 54
   \<and> py_sum [6004799503160661 / 36028797018963968, 6004799503160661 / 9007199254740992,
             6004799503160661 / 36028797018963968] = 1 - 1 / 2 ^ 53"
proof -
  have 1: "approx_shapley_float64 [[0, 1, 2]] 3 6 skewed_draws
     = [Fin (6004799503160661 / 36028797018963968), Fin (6004799503160661 / 9007199254740992),
        Fin (6004799503160661 / 36028797018963968)]"
    by code_simp
  have 2: "sum_list [6004799503160661 / 36028797018963968, 6004799503160661 / 9007199254740992,
               6004799503160661 / 36028797018963968 :: rat] = 1 - 1 / 2 ^ 54"
    by simp
  have 3: "py_sum [6004799503160661 / 36028797018963968, 6004799503160661 / 9007199254740992,
             6004799503160661 / 36028797018963968] = 1 - 1 / 2 ^ 53"
    by code_simp
  from 1 2 3 show ?thesis by (intro conjI)
qed

text \<open>
  C10, amended. For every \<open>n \<ge> 1\<close>, every non-empty family of non-empty support sets with
  indices in \<open>{0..<n}\<close>, every sequence of drawn permutations of the universe and every sample
  count \<open>1 \<le> num_samples < 2^53\<close> (the engine passes \<open>N_SAMPLES = 10000\<close>): the walk along each
  drawn permutation credits exactly one element, the element at the one position \<open>j\<close> where
  \<open>v\<close> of the running coalition flips from 0 to 1; the counts add up to exactly
  \<open>num_samples\<close>; and the returned estimates are finite, nonnegative doubles whose sum, taken
  as a real number, differs from 1 by at most the unit roundoff \<open>2^-53\<close>.
\<close>

theorem approx_shapley_sums_to_one_up_to_rounding:
  assumes "1 \<le> n" and "support_sets \<noteq> []"
    and "\<forall>S\<in>set support_sets. S \<noteq> [] \<and> set S \<subseteq> {0..<n}"
    and "\<forall>i. set (rng i) = {0..<n}"
    and "1 \<le> num_samples" and "num_samples < 2 ^ 53"
  shows "(\<forall>i counts. \<exists>j<length (rng i).
            (\<forall>k\<le>length (rng i).
               coalition_value (support_sets_to_masks support_sets n) (prefix_mask (take k (rng i)))
                 = (if k \<le> j then 0 else 1))
            \<and> rng i ! j < n
            \<and> walk_float64 (support_sets_to_masks support_sets n) (rng i) 0 0 counts
                = counts[rng i ! j := double_round (counts ! (rng i ! j) + 1)])
       \<and> sum_list (fold (\<lambda>i counts.
                      walk_float64 (support_sets_to_masks support_sets n) (rng i) 0 0 counts)
                     [0..<nat num_samples] (replicate n 0)) = of_int num_samples
       \<and> (\<exists>phi. approx_shapley_float64 support_sets n num_samples rng = map Fin phi
                \<and> length phi = n \<and> (\<forall>x\<in>set phi. 0 \<le> x)
                \<and> \<bar>sum_list phi - 1\<bar> \<le> unit_roundoff)"
proof (intro conjI allI)
  fix i and counts :: "rat list"
  from assms(4) have "set (rng i) = {0..<n}" by blast
  from walk_float64_sample [OF assms(2,3) this]
  show "\<exists>j<length (rng i).
          (\<forall>k\<le>length (rng i).
             coalition_value (support_sets_to_masks support_sets n) (prefix_mask (take k (rng i)))
               = (if k \<le> j then 0 else 1))
          \<and> rng i ! j < n
          \<and> walk_float64 (support_sets_to_masks support_sets n) (rng i) 0 0 counts
              = counts[rng i ! j := double_round (counts ! (rng i ! j) + 1)]" .
next
  from approx_shapley_float64_estimates [OF assms(2,3,4,5,6)]
  show "sum_list (fold (\<lambda>i counts.
                      walk_float64 (support_sets_to_masks support_sets n) (rng i) 0 0 counts)
                     [0..<nat num_samples] (replicate n 0)) = of_int num_samples"
    by blast
next
  from approx_shapley_float64_estimates [OF assms(2,3,4,5,6)]
  show "\<exists>phi. approx_shapley_float64 support_sets n num_samples rng = map Fin phi
          \<and> length phi = n \<and> (\<forall>x\<in>set phi. 0 \<le> x)
          \<and> \<bar>sum_list phi - 1\<bar> \<le> unit_roundoff"
    by blast
qed

theorem approx_shapley_sums_to_one_up_to_rounding_witness:
  "approx_shapley_float64 [[0, 1], [0, 2]] 3 3 (rotating_draws 3)
     = [Fin (6004799503160661 / 9007199254740992), Fin 0,
        Fin (6004799503160661 / 18014398509481984)]
   \<and> (\<exists>phi. approx_shapley_float64 [[0, 1], [0, 2]] 3 3 (rotating_draws 3) = map Fin phi
            \<and> length phi = 3 \<and> (\<forall>x\<in>set phi. 0 \<le> x)
            \<and> \<bar>sum_list phi - 1\<bar> \<le> unit_roundoff)"
proof -
  have h1: "(1::nat) \<le> 3" by simp
  have h2: "[[0, 1], [0, 2 :: nat]] \<noteq> []" by simp
  have h3: "\<forall>S\<in>set [[0, 1], [0, 2 :: nat]]. S \<noteq> [] \<and> set S \<subseteq> {0..<3}" by simp
  have h4: "\<forall>i. set (rotating_draws 3 i) = {0..<3}" by (simp add: rotating_draws_def)
  have h5: "(1::int) \<le> 3" by simp
  have h6: "(3::int) < 2 ^ 53" by simp
  have v: "approx_shapley_float64 [[0, 1], [0, 2]] 3 3 (rotating_draws 3)
     = [Fin (6004799503160661 / 9007199254740992), Fin 0,
        Fin (6004799503160661 / 18014398509481984)]"
    by code_simp
  from approx_shapley_sums_to_one_up_to_rounding [OF h1 h2 h3 h4 h5 h6]
  have "\<exists>phi. approx_shapley_float64 [[0, 1], [0, 2]] 3 3 (rotating_draws 3) = map Fin phi
            \<and> length phi = 3 \<and> (\<forall>x\<in>set phi. 0 \<le> x)
            \<and> \<bar>sum_list phi - 1\<bar> \<le> unit_roundoff"
    by blast
  with v show ?thesis by blast
qed


section \<open>Tuple identity and MIS files (measures/common.py)\<close>

datatype py_error = ValueError | TypeError | KeyError | ZeroDivisionError

type_synonym TupleKey = "string \<times> int list"

text \<open>
  A value found in the parsed JSON where a primary key is expected. \<open>PInt\<close> is an \<open>int\<close>
  (a JSON \<open>true\<close> or \<open>false\<close> is the \<open>int\<close> 1 or 0 in Python), \<open>PList\<close> a list or tuple.
  \<open>POther r\<close> is any other object \<open>x\<close> (a string, a float, a dict); what the code does with
  it is call \<open>int(x)\<close>, and \<open>r\<close> is the outcome of that call.
\<close>

datatype pyval = PNone | PInt int | PList "pyval list" | POther "py_error + int"

text \<open>Running a fallible step over a list; the first exception ends the run.\<close>

fun collect :: "('a \<Rightarrow> 'e + 'b) \<Rightarrow> 'a list \<Rightarrow> 'e + 'b list" where
  "collect f [] = Inr []"
| "collect f (x # xs) =
     (case f x of
        Inl err \<Rightarrow> Inl err
      | Inr y \<Rightarrow> (case collect f xs of Inl err \<Rightarrow> Inl err | Inr ys \<Rightarrow> Inr (y # ys)))"

text \<open>The builtin \<open>int(x)\<close>.\<close>

fun py_int :: "pyval \<Rightarrow> py_error + int" where
  "py_int PNone = Inl TypeError"
| "py_int (PInt i) = Inr i"
| "py_int (PList xs) = Inl TypeError"
| "py_int (POther r) = r"

fun normalize_pk :: "pyval \<Rightarrow> py_error + int list" where
  "normalize_pk PNone = Inl ValueError"
| "normalize_pk (PInt i) = Inr [i]"
| "normalize_pk (PList xs) = (if xs = [] then Inl ValueError else collect py_int xs)"
| "normalize_pk (POther r) = (case r of Inl err \<Rightarrow> Inl err | Inr i \<Rightarrow> Inr [i])"

text \<open>
  The value under the key \<open>"tuples"\<close> of one MIS dict: a dict from relation name to primary
  keys (its items in order), or something that is not a dict. A \<open>mis\<close> without the key has
  \<open>tuples = None\<close>, for which \<open>mis.get("tuples", {})\<close> is the empty dict.
\<close>

datatype tuples_obj = TuplesDict "(string \<times> pyval) list" | TuplesNotDict

record mis =
  tuples :: "tuples_obj option"

text \<open>What one item \<open>rel, pks\<close> of the dict yields in \<open>iter_mis_tuples\<close>.\<close>

fun rel_tuples :: "string \<times> pyval \<Rightarrow> py_error + TupleKey list" where
  "rel_tuples (rel, PNone) = Inr []"
| "rel_tuples (rel, PList items) =
     collect (\<lambda>item. case normalize_pk item of Inl err \<Rightarrow> Inl err | Inr pk \<Rightarrow> Inr (rel, pk)) items"
| "rel_tuples (rel, pks) =
     (case normalize_pk pks of Inl err \<Rightarrow> Inl err | Inr pk \<Rightarrow> Inr [(rel, pk)])"

text \<open>
  The generator \<open>iter_mis_tuples\<close>, run to its end as every caller does: the tuple keys it
  yields in order, or the exception \<open>normalize_pk\<close> raises on the way.
\<close>

definition iter_mis_tuples :: "mis \<Rightarrow> py_error + TupleKey list" where
  "iter_mis_tuples m =
     (case tuples m of
        None \<Rightarrow> Inr []
      | Some TuplesNotDict \<Rightarrow> Inr []
      | Some (TuplesDict items) \<Rightarrow>
          (case collect rel_tuples items of Inl err \<Rightarrow> Inl err | Inr yss \<Rightarrow> Inr (concat yss)))"

text \<open>
  The parsed content of a file \<open><dc>.json\<close>: a list of MIS dicts, a dict whose key
  \<open>"mis"\<close> holds such a list, or anything else. A MIS directory maps a constraint name to
  the content of its file, \<open>None\<close> when \<open>path.exists()\<close> is false.
\<close>

datatype mis_file = JsonList "mis list" | JsonDictMis "mis list" | JsonUnexpected

type_synonym mis_dir = "string \<Rightarrow> mis_file option"

fun load_mis_file :: "mis_file \<Rightarrow> py_error + mis list" where
  "load_mis_file (JsonList data) = Inr data"
| "load_mis_file (JsonDictMis data) = Inr data"
| "load_mis_file JsonUnexpected = Inl ValueError"

section \<open>Constant-weight aggregators (measures/cbm.py, measures/cim.py)\<close>

text \<open>\<open>score[tk] += w\<close> on a \<open>defaultdict(float)\<close>.\<close>

definition score_add :: "TupleKey \<Rightarrow> rat \<Rightarrow> (TupleKey \<rightharpoonup> rat) \<Rightarrow> (TupleKey \<rightharpoonup> rat)" where
  "score_add tk w score = score(tk \<mapsto> (case score tk of None \<Rightarrow> 0 | Some v \<Rightarrow> v) + w)"

fun cbm_loop :: "mis_dir \<Rightarrow> string list \<Rightarrow> (TupleKey \<rightharpoonup> rat) \<Rightarrow> py_error + (TupleKey \<rightharpoonup> rat)" where
  "cbm_loop mis_dir [] score = Inr score"
| "cbm_loop mis_dir (dc # dcs) score =
     (case mis_dir dc of
        None \<Rightarrow> cbm_loop mis_dir dcs score
      | Some file \<Rightarrow>
          (case load_mis_file file of
             Inl err \<Rightarrow> Inl err
           | Inr mis_list \<Rightarrow>
               (case collect iter_mis_tuples mis_list of
                  Inl err \<Rightarrow> Inl err
                | Inr yielded \<Rightarrow>
                    let tuples_for_dc = remdups (concat yielded)
                    in cbm_loop mis_dir dcs (fold (\<lambda>tk. score_add tk 1) tuples_for_dc score))))"

definition compute_cbm :: "mis_dir \<Rightarrow> string list \<Rightarrow> py_error + (TupleKey \<rightharpoonup> rat)" where
  "compute_cbm mis_dir dcs = cbm_loop mis_dir dcs Map.empty"

definition CIM_WEIGHTS :: "(string \<times> (string \<times> rat) list) list" where
  "CIM_WEIGHTS =
     [(''DC1'', [(''lineitem'', 1)]),
      (''DC2'', [(''orders'', 2), (''lineitem'', 2)]),
      (''DC3'', [(''orders'', 2), (''lineitem'', 2)]),
      (''DC4'', [(''lineitem'', 2), (''partsupp'', 3), (''part'', 1)])]"

fun cim_loop :: "mis_dir \<Rightarrow> string list \<Rightarrow> (TupleKey \<rightharpoonup> rat) \<Rightarrow> py_error + (TupleKey \<rightharpoonup> rat)" where
  "cim_loop mis_dir [] score = Inr score"
| "cim_loop mis_dir (dc # dcs) score =
     (let rel_w = (case map_of CIM_WEIGHTS dc of None \<Rightarrow> [] | Some d \<Rightarrow> d)
      in if rel_w = [] then cim_loop mis_dir dcs score
         else
           case mis_dir dc of
             None \<Rightarrow> cim_loop mis_dir dcs score
           | Some file \<Rightarrow>
               (case load_mis_file file of
                  Inl err \<Rightarrow> Inl err
                | Inr mis_list \<Rightarrow>
                    (case collect iter_mis_tuples mis_list of
                       Inl err \<Rightarrow> Inl err
                     | Inr yielded \<Rightarrow>
                         cim_loop mis_dir dcs
                           (fold (\<lambda>(rel, pk) score.
                                    let w = (case map_of rel_w rel of None \<Rightarrow> 0 | Some w \<Rightarrow> w)
                                    in if w \<noteq> 0 then score_add (rel, pk) w score else score)
                              (concat yielded) score))))"

definition compute_cim :: "mis_dir \<Rightarrow> string list \<Rightarrow> py_error + (TupleKey \<rightharpoonup> rat)" where
  "compute_cim mis_dir dcs = cim_loop mis_dir dcs Map.empty"

text \<open>
  Reading one constraint's file, as both aggregators do: every tuple key its witness sets
  yield, with repetitions, in order. A missing file yields nothing.
\<close>

definition dc_yield :: "mis_dir \<Rightarrow> string \<Rightarrow> py_error + TupleKey list" where
  "dc_yield mis_dir dc =
     (case mis_dir dc of
        None \<Rightarrow> Inr []
      | Some file \<Rightarrow>
          (case load_mis_file file of
             Inl err \<Rightarrow> Inl err
           | Inr mis_list \<Rightarrow>
               (case collect iter_mis_tuples mis_list of
                  Inl err \<Rightarrow> Inl err
                | Inr yielded \<Rightarrow> Inr (concat yielded))))"

definition dc_readable :: "mis_dir \<Rightarrow> string \<Rightarrow> bool" where
  "dc_readable mis_dir dc = (case dc_yield mis_dir dc of Inl err \<Rightarrow> False | Inr ys \<Rightarrow> True)"

text \<open>How often a tuple occurs across the witness sets of one constraint.\<close>

definition dc_occurrences :: "mis_dir \<Rightarrow> string \<Rightarrow> TupleKey \<Rightarrow> nat" where
  "dc_occurrences mis_dir dc tk =
     (case dc_yield mis_dir dc of Inl err \<Rightarrow> 0 | Inr ys \<Rightarrow> count_list ys tk)"

definition cim_weight :: "string \<Rightarrow> string \<Rightarrow> rat" where
  "cim_weight dc rel =
     (case map_of CIM_WEIGHTS dc of
        None \<Rightarrow> 0
      | Some d \<Rightarrow> (case map_of d rel of None \<Rightarrow> 0 | Some w \<Rightarrow> w))"

lemma count_list_pos: "0 < count_list xs x \<longleftrightarrow> x \<in> set xs"
  using count_list_0_iff [of xs x] by auto

lemma score_add_apply:
  "score_add tk w score tk' =
     (if tk' = tk then Some ((case score tk of None \<Rightarrow> 0 | Some v \<Rightarrow> v) + w) else score tk')"
  by (simp add: score_add_def)

lemma fold_score_add_one:
  "distinct ts \<Longrightarrow>
   fold (\<lambda>tk. score_add tk 1) ts score tk =
     (if tk \<in> set ts then Some ((case score tk of None \<Rightarrow> 0 | Some v \<Rightarrow> v) + 1) else score tk)"
proof (induction ts arbitrary: score)
  case Nil
  then show ?case by simp
next
  case (Cons a ts)
  then show ?case by (auto simp: score_add_apply)
qed

lemma cbm_loop_counts:
  assumes "\<forall>dc\<in>set dcs. dc_readable mis_dir dc"
  shows "\<exists>score'. cbm_loop mis_dir dcs score = Inr score' \<and>
           (\<forall>tk. score' tk =
              (if \<exists>dc\<in>set dcs. 0 < dc_occurrences mis_dir dc tk
               then Some ((case score tk of None \<Rightarrow> 0 | Some v \<Rightarrow> v)
                          + of_nat (length (filter (\<lambda>dc. 0 < dc_occurrences mis_dir dc tk) dcs)))
               else score tk))"
  using assms
proof (induction dcs arbitrary: score)
  case Nil
  then show ?case by simp
next
  case (Cons dc dcs)
  from Cons.prems have rd: "dc_readable mis_dir dc" and rest: "\<forall>dc\<in>set dcs. dc_readable mis_dir dc"
    by simp_all
  show ?case
  proof (cases "mis_dir dc")
    case None
    then have occ: "\<And>tk. dc_occurrences mis_dir dc tk = 0"
      by (simp add: dc_occurrences_def dc_yield_def)
    from Cons.IH [OF rest, of score] obtain score' where
      res: "cbm_loop mis_dir dcs score = Inr score'" and
      val: "\<forall>tk. score' tk =
              (if \<exists>dc\<in>set dcs. 0 < dc_occurrences mis_dir dc tk
               then Some ((case score tk of None \<Rightarrow> 0 | Some v \<Rightarrow> v)
                          + of_nat (length (filter (\<lambda>dc. 0 < dc_occurrences mis_dir dc tk) dcs)))
               else score tk)"
      by blast
    show ?thesis
    proof (intro exI conjI allI)
      show "cbm_loop mis_dir (dc # dcs) score = Inr score'" using None res by simp
      fix tk
      show "score' tk =
        (if \<exists>d\<in>set (dc # dcs). 0 < dc_occurrences mis_dir d tk
         then Some ((case score tk of None \<Rightarrow> 0 | Some v \<Rightarrow> v)
               + of_nat (length (filter (\<lambda>d. 0 < dc_occurrences mis_dir d tk) (dc # dcs))))
         else score tk)"
        using val [rule_format, of tk] occ [of tk] by simp
    qed
  next
    case (Some fl)
    with rd obtain mis_list yielded where
      ld: "load_mis_file fl = Inr mis_list" and co: "collect iter_mis_tuples mis_list = Inr yielded"
      by (auto simp: dc_readable_def dc_yield_def split: sum.splits)
    have occ: "\<And>tk. 0 < dc_occurrences mis_dir dc tk \<longleftrightarrow> tk \<in> set (concat yielded)"
      using Some ld co count_list_pos [of "concat yielded"]
      by (simp add: dc_occurrences_def dc_yield_def del: set_concat)
    let ?score = "fold (\<lambda>tk. score_add tk 1) (remdups (concat yielded)) score"
    have step: "cbm_loop mis_dir (dc # dcs) score = cbm_loop mis_dir dcs ?score"
      using Some ld co by simp
    have upd: "\<And>tk. ?score tk =
        (if tk \<in> set (concat yielded) then Some ((case score tk of None \<Rightarrow> 0 | Some v \<Rightarrow> v) + 1)
         else score tk)"
      by (subst fold_score_add_one) simp_all
    from Cons.IH [OF rest, of ?score] obtain score' where
      res: "cbm_loop mis_dir dcs ?score = Inr score'" and
      val: "\<forall>tk. score' tk =
              (if \<exists>dc\<in>set dcs. 0 < dc_occurrences mis_dir dc tk
               then Some ((case ?score tk of None \<Rightarrow> 0 | Some v \<Rightarrow> v)
                          + of_nat (length (filter (\<lambda>dc. 0 < dc_occurrences mis_dir dc tk) dcs)))
               else ?score tk)"
      by blast
    show ?thesis
    proof (intro exI conjI allI)
      show "cbm_loop mis_dir (dc # dcs) score = Inr score'" using step res by simp
      fix tk
      show "score' tk =
        (if \<exists>d\<in>set (dc # dcs). 0 < dc_occurrences mis_dir d tk
         then Some ((case score tk of None \<Rightarrow> 0 | Some v \<Rightarrow> v)
               + of_nat (length (filter (\<lambda>d. 0 < dc_occurrences mis_dir d tk) (dc # dcs))))
         else score tk)"
        using val [rule_format, of tk] upd [of tk] occ [of tk]
        by (auto simp: algebra_simps)
    qed
  qed
qed


lemma cim_weight_nonneg: "0 \<le> cim_weight dc rel"
  by (simp add: cim_weight_def CIM_WEIGHTS_def)

lemma cim_weights_nonempty: "map_of CIM_WEIGHTS dc = Some d \<Longrightarrow> d \<noteq> []"
  by (auto simp: CIM_WEIGHTS_def split: if_splits)

lemma fold_cim_add:
  "fold (\<lambda>(rel, pk) score.
           let w = wt rel in if w \<noteq> 0 then score_add (rel, pk) w score else score) ts score tk
   = (if count_list ts tk = 0 \<or> wt (fst tk) = 0 then score tk
      else Some ((case score tk of None \<Rightarrow> 0 | Some v \<Rightarrow> v)
                 + of_nat (count_list ts tk) * wt (fst tk)))"
proof (induction ts arbitrary: score)
  case Nil
  then show ?case by simp
next
  case (Cons a ts)
  obtain rel pk where a: "a = (rel, pk)" by (cases a)
  show ?case
  proof (cases "wt rel = 0")
    case True
    then show ?thesis using Cons.IH [of score] a by (cases tk) (auto simp: Let_def)
  next
    case False
    define score1 where "score1 = score_add (rel, pk) (wt rel) score"
    have step: "fold (\<lambda>(rel, pk) score.
           let w = wt rel in if w \<noteq> 0 then score_add (rel, pk) w score else score) (a # ts) score
        = fold (\<lambda>(rel, pk) score.
           let w = wt rel in if w \<noteq> 0 then score_add (rel, pk) w score else score) ts score1"
      using False by (simp add: a score1_def Let_def)
    have s1: "score1 tk =
        (if tk = (rel, pk) then Some ((case score (rel, pk) of None \<Rightarrow> 0 | Some v \<Rightarrow> v) + wt rel)
         else score tk)"
      unfolding score1_def by (rule score_add_apply)
    show ?thesis
    proof (cases "tk = (rel, pk)")
      case True
      with False have w: "wt (fst tk) \<noteq> 0" by simp
      show ?thesis unfolding step Cons.IH [of score1] s1 using True w
        by (simp add: a algebra_simps)
    next
      case neq: False
      then have "count_list (a # ts) tk = count_list ts tk" by (auto simp: a)
      then show ?thesis unfolding step Cons.IH [of score1] s1 using neq by simp
    qed
  qed
qed


text \<open>The sum over the listed constraints of \<open>k \<cdot> w(constraint, relation)\<close>.\<close>

definition cim_total :: "mis_dir \<Rightarrow> string list \<Rightarrow> TupleKey \<Rightarrow> rat" where
  "cim_total mis_dir dcs tk =
     (\<Sum>dc\<leftarrow>dcs. of_nat (dc_occurrences mis_dir dc tk) * cim_weight dc (fst tk))"

lemma cim_total_nonneg: "0 \<le> cim_total mis_dir dcs tk"
  unfolding cim_total_def by (intro sum_list_nonneg) (auto simp: cim_weight_nonneg)

lemma cim_total_Cons:
  "cim_total mis_dir (dc # dcs) tk =
     of_nat (dc_occurrences mis_dir dc tk) * cim_weight dc (fst tk) + cim_total mis_dir dcs tk"
  by (simp add: cim_total_def)

lemma cim_loop_totals:
  assumes "\<forall>dc\<in>set dcs. map_of CIM_WEIGHTS dc \<noteq> None \<longrightarrow> dc_readable mis_dir dc"
  shows "\<exists>score'. cim_loop mis_dir dcs score = Inr score' \<and>
           (\<forall>tk. score' tk =
              (if cim_total mis_dir dcs tk = 0 then score tk
               else Some ((case score tk of None \<Rightarrow> 0 | Some v \<Rightarrow> v) + cim_total mis_dir dcs tk)))"
  using assms
proof (induction dcs arbitrary: score)
  case Nil
  then show ?case by (simp add: cim_total_def)
next
  case (Cons dc dcs)
  from Cons.prems have rest:
    "\<forall>dc\<in>set dcs. map_of CIM_WEIGHTS dc \<noteq> None \<longrightarrow> dc_readable mis_dir dc" by simp
  have "\<exists>score1. cim_loop mis_dir (dc # dcs) score = cim_loop mis_dir dcs score1 \<and>
          (\<forall>tk. score1 tk =
             (if of_nat (dc_occurrences mis_dir dc tk) * cim_weight dc (fst tk) = 0 then score tk
              else Some ((case score tk of None \<Rightarrow> 0 | Some v \<Rightarrow> v)
                         + of_nat (dc_occurrences mis_dir dc tk) * cim_weight dc (fst tk))))"
  proof (cases "map_of CIM_WEIGHTS dc")
    case None
    then have "cim_loop mis_dir (dc # dcs) score = cim_loop mis_dir dcs score" by simp
    moreover from None have "\<And>rel. cim_weight dc rel = 0" by (simp add: cim_weight_def)
    ultimately show ?thesis by auto
  next
    case (Some d)
    then have d: "d \<noteq> []" by (rule cim_weights_nonempty)
    have w: "\<And>rel. (case map_of d rel of None \<Rightarrow> 0 | Some w \<Rightarrow> w) = cim_weight dc rel"
      using Some by (simp add: cim_weight_def)
    from Some Cons.prems have rd: "dc_readable mis_dir dc" by simp
    show ?thesis
    proof (cases "mis_dir dc")
      case None
      then have "cim_loop mis_dir (dc # dcs) score = cim_loop mis_dir dcs score"
        using Some d by simp
      moreover from None have "\<And>tk. dc_occurrences mis_dir dc tk = 0"
        by (simp add: dc_occurrences_def dc_yield_def)
      ultimately show ?thesis by auto
    next
      case fl: (Some fl)
      with rd obtain mis_list yielded where
        ld: "load_mis_file fl = Inr mis_list" and
        co: "collect iter_mis_tuples mis_list = Inr yielded"
        by (auto simp: dc_readable_def dc_yield_def split: sum.splits)
      have occ: "\<And>tk. dc_occurrences mis_dir dc tk = count_list (concat yielded) tk"
        using fl ld co by (simp add: dc_occurrences_def dc_yield_def)
      let ?score1 = "fold (\<lambda>(rel, pk) score.
                        let w = cim_weight dc rel
                        in if w \<noteq> 0 then score_add (rel, pk) w score else score)
                      (concat yielded) score"
      have "cim_loop mis_dir (dc # dcs) score = cim_loop mis_dir dcs ?score1"
        using Some d fl ld co by (simp add: w)
      moreover have "\<forall>tk. ?score1 tk =
             (if of_nat (dc_occurrences mis_dir dc tk) * cim_weight dc (fst tk) = 0 then score tk
              else Some ((case score tk of None \<Rightarrow> 0 | Some v \<Rightarrow> v)
                         + of_nat (dc_occurrences mis_dir dc tk) * cim_weight dc (fst tk)))"
        unfolding fold_cim_add occ by simp
      ultimately show ?thesis by blast
    qed
  qed
  then obtain score1 where
    step: "cim_loop mis_dir (dc # dcs) score = cim_loop mis_dir dcs score1" and
    s1: "\<forall>tk. score1 tk =
             (if of_nat (dc_occurrences mis_dir dc tk) * cim_weight dc (fst tk) = 0 then score tk
              else Some ((case score tk of None \<Rightarrow> 0 | Some v \<Rightarrow> v)
                         + of_nat (dc_occurrences mis_dir dc tk) * cim_weight dc (fst tk)))"
    by blast
  from Cons.IH [OF rest, of score1] obtain score' where
    res: "cim_loop mis_dir dcs score1 = Inr score'" and
    val: "\<forall>tk. score' tk =
              (if cim_total mis_dir dcs tk = 0 then score1 tk
               else Some ((case score1 tk of None \<Rightarrow> 0 | Some v \<Rightarrow> v) + cim_total mis_dir dcs tk))"
    by blast
  show ?case
  proof (intro exI conjI allI)
    show "cim_loop mis_dir (dc # dcs) score = Inr score'" using step res by simp
    fix tk
    have t0: "0 \<le> of_nat (dc_occurrences mis_dir dc tk) * cim_weight dc (fst tk)"
      by (simp add: cim_weight_nonneg)
    have t1: "0 \<le> cim_total mis_dir dcs tk" by (rule cim_total_nonneg)
    show "score' tk =
      (if cim_total mis_dir (dc # dcs) tk = 0 then score tk
       else Some ((case score tk of None \<Rightarrow> 0 | Some v \<Rightarrow> v) + cim_total mis_dir (dc # dcs) tk))"
      unfolding cim_total_Cons using val [rule_format, of tk] s1 [rule_format, of tk] t0 t1
      by (auto simp: add_nonneg_eq_0_iff algebra_simps)
  qed
qed

definition example_mis_dir :: mis_dir where
  "example_mis_dir dc =
     (if dc = ''DC1'' then
        Some (JsonList
          [\<lparr>tuples = Some (TuplesDict [(''lineitem'', PList [PList [PInt 1, PInt 2]]),
                                      (''part'', PList [PInt 7])])\<rparr>,
           \<lparr>tuples = Some (TuplesDict [(''lineitem'', PList [PList [PInt 1, PInt 2]])])\<rparr>])
      else if dc = ''DC4'' then
        Some (JsonDictMis
          [\<lparr>tuples = Some (TuplesDict [(''lineitem'', PList [PList [PInt 1, PInt 2]]),
                                      (''partsupp'', PList [PList [PInt 3, PInt 4]])])\<rparr>])
      else None)"

definition malformed_mis_dir :: mis_dir where
  "malformed_mis_dir dc =
     (if dc = ''DC1'' then
        Some (JsonList [\<lparr>tuples = Some (TuplesDict [(''lineitem'', PList [PList []])])\<rparr>])
      else None)"

text \<open>
  C5. When the files of the listed constraints can be read, \<open>compute_cbm\<close> returns a score
  table in which a tuple has an entry exactly if it occurs in the MIS family of some listed
  constraint, and the entry is the number of listed constraints in whose family it occurs,
  however many of a constraint's witness sets contain it.
\<close>

theorem compute_cbm_counts_constraints:
  assumes "\<forall>dc\<in>set dcs. dc_readable mis_dir dc"
  shows "\<exists>score. compute_cbm mis_dir dcs = Inr score \<and>
           (\<forall>tk. score tk =
              (if \<exists>dc\<in>set dcs. 0 < dc_occurrences mis_dir dc tk
               then Some (of_nat (length (filter (\<lambda>dc. 0 < dc_occurrences mis_dir dc tk) dcs)))
               else None))"
proof -
  from cbm_loop_counts [OF assms, of Map.empty] obtain score where
    res: "cbm_loop mis_dir dcs Map.empty = Inr score" and
    val: "\<forall>tk. score tk =
            (if \<exists>dc\<in>set dcs. 0 < dc_occurrences mis_dir dc tk
             then Some ((case Map.empty tk of None \<Rightarrow> 0 | Some v \<Rightarrow> v)
                        + of_nat (length (filter (\<lambda>dc. 0 < dc_occurrences mis_dir dc tk) dcs)))
             else Map.empty tk)"
    by blast
  from val have "\<forall>tk. score tk =
            (if \<exists>dc\<in>set dcs. 0 < dc_occurrences mis_dir dc tk
             then Some (of_nat (length (filter (\<lambda>dc. 0 < dc_occurrences mis_dir dc tk) dcs)))
             else None)"
    by simp
  with res show ?thesis unfolding compute_cbm_def by blast
qed

theorem compute_cbm_counts_constraints_witness:
  "\<exists>score. compute_cbm example_mis_dir [''DC1'', ''DC4'', ''DC9''] = Inr score
     \<and> score (''lineitem'', [1, 2]) = Some 2
     \<and> score (''part'', [7]) = Some 1
     \<and> score (''orders'', [5]) = None"
proof -
  have h: "\<forall>dc\<in>set [''DC1'', ''DC4'', ''DC9'']. dc_readable example_mis_dir dc"
    by code_simp
  have o: "dc_occurrences example_mis_dir ''DC1'' (''lineitem'', [1, 2]) = 2"
    "dc_occurrences example_mis_dir ''DC4'' (''lineitem'', [1, 2]) = 1"
    "dc_occurrences example_mis_dir ''DC9'' (''lineitem'', [1, 2]) = 0"
    "dc_occurrences example_mis_dir ''DC1'' (''part'', [7]) = 1"
    "dc_occurrences example_mis_dir ''DC4'' (''part'', [7]) = 0"
    "dc_occurrences example_mis_dir ''DC9'' (''part'', [7]) = 0"
    "dc_occurrences example_mis_dir ''DC1'' (''orders'', [5]) = 0"
    "dc_occurrences example_mis_dir ''DC4'' (''orders'', [5]) = 0"
    "dc_occurrences example_mis_dir ''DC9'' (''orders'', [5]) = 0"
    by code_simp+
  from compute_cbm_counts_constraints [OF h] obtain score where
    "compute_cbm example_mis_dir [''DC1'', ''DC4'', ''DC9''] = Inr score" and
    "\<forall>tk. score tk =
       (if \<exists>dc\<in>set [''DC1'', ''DC4'', ''DC9'']. 0 < dc_occurrences example_mis_dir dc tk
        then Some (of_nat (length (filter (\<lambda>dc. 0 < dc_occurrences example_mis_dir dc tk)
                                     [''DC1'', ''DC4'', ''DC9''])))
        else None)"
    by blast
  then show ?thesis by (intro exI [of _ score]) (simp add: o)
qed

text \<open>
  C6, as stated, fails where it says that \<open>compute_cim\<close> never fails: a primary key that is
  an empty list makes \<open>normalize_pk\<close> raise \<open>ValueError\<close>.
\<close>

theorem compute_cim_fails_counterexample:
  "compute_cim malformed_mis_dir [''DC1''] = Inl ValueError"
  by (simp add: compute_cim_def malformed_mis_dir_def CIM_WEIGHTS_def iter_mis_tuples_def)

text \<open>
  C6, amended. When the files of the listed constraints that have an entry in the weight
  table can be read, \<open>compute_cim\<close> returns a score table in which the score of a tuple is
  the sum over the listed constraints of \<open>k \<cdot> w(constraint, relation)\<close>, \<open>k\<close> being the
  number of occurrences of the tuple across the constraint's witness sets, and a tuple whose
  sum is 0 has no entry. An unknown constraint (whose file is not even opened) and a relation
  missing from the constraint's weights have weight 0, so they contribute 0 and never make
  the computation fail.
\<close>

theorem compute_cim_weighted_occurrences:
  assumes "\<forall>dc\<in>set dcs. map_of CIM_WEIGHTS dc \<noteq> None \<longrightarrow> dc_readable mis_dir dc"
  shows "\<exists>score. compute_cim mis_dir dcs = Inr score \<and>
           (\<forall>tk. score tk =
              (if (\<Sum>dc\<leftarrow>dcs. of_nat (dc_occurrences mis_dir dc tk) * cim_weight dc (fst tk)) = 0
               then None
               else Some (\<Sum>dc\<leftarrow>dcs. of_nat (dc_occurrences mis_dir dc tk)
                                      * cim_weight dc (fst tk))))"
proof -
  from cim_loop_totals [OF assms, of Map.empty] obtain score where
    res: "cim_loop mis_dir dcs Map.empty = Inr score" and
    val: "\<forall>tk. score tk =
            (if cim_total mis_dir dcs tk = 0 then Map.empty tk
             else Some ((case Map.empty tk of None \<Rightarrow> 0 | Some v \<Rightarrow> v)
                        + cim_total mis_dir dcs tk))"
    by blast
  from val have "\<forall>tk. score tk =
            (if (\<Sum>dc\<leftarrow>dcs. of_nat (dc_occurrences mis_dir dc tk) * cim_weight dc (fst tk)) = 0
             then None
             else Some (\<Sum>dc\<leftarrow>dcs. of_nat (dc_occurrences mis_dir dc tk)
                                    * cim_weight dc (fst tk)))"
    unfolding cim_total_def by simp
  with res show ?thesis unfolding compute_cim_def by blast
qed

theorem compute_cim_weighted_occurrences_witness:
  "\<exists>score. compute_cim example_mis_dir [''DC1'', ''DC4'', ''DC9''] = Inr score
     \<and> score (''lineitem'', [1, 2]) = Some 4
     \<and> score (''partsupp'', [3, 4]) = Some 3
     \<and> score (''part'', [7]) = None"
proof -
  have h: "\<forall>dc\<in>set [''DC1'', ''DC4'', ''DC9''].
             map_of CIM_WEIGHTS dc \<noteq> None \<longrightarrow> dc_readable example_mis_dir dc"
    by code_simp
  have o: "dc_occurrences example_mis_dir ''DC1'' (''lineitem'', [1, 2]) = 2"
    "dc_occurrences example_mis_dir ''DC4'' (''lineitem'', [1, 2]) = 1"
    "dc_occurrences example_mis_dir ''DC1'' (''partsupp'', [3, 4]) = 0"
    "dc_occurrences example_mis_dir ''DC4'' (''partsupp'', [3, 4]) = 1"
    "dc_occurrences example_mis_dir ''DC1'' (''part'', [7]) = 1"
    "dc_occurrences example_mis_dir ''DC4'' (''part'', [7]) = 0"
    by code_simp+
  have w: "cim_weight ''DC1'' ''lineitem'' = 1" "cim_weight ''DC4'' ''lineitem'' = 2"
    "cim_weight ''DC4'' ''partsupp'' = 3" "cim_weight ''DC1'' ''part'' = 0"
    "\<And>rel. cim_weight ''DC9'' rel = 0"
    by (simp_all add: cim_weight_def CIM_WEIGHTS_def)
  from compute_cim_weighted_occurrences [OF h] obtain score where
    "compute_cim example_mis_dir [''DC1'', ''DC4'', ''DC9''] = Inr score" and
    "\<forall>tk. score tk =
       (if (\<Sum>dc\<leftarrow>[''DC1'', ''DC4'', ''DC9''].
              of_nat (dc_occurrences example_mis_dir dc tk) * cim_weight dc (fst tk)) = 0
        then None
        else Some (\<Sum>dc\<leftarrow>[''DC1'', ''DC4'', ''DC9''].
                     of_nat (dc_occurrences example_mis_dir dc tk) * cim_weight dc (fst tk)))"
    by blast
  then show ?thesis by (intro exI [of _ score]) (simp add: o w)
qed


section \<open>Hypergraph builder and exact hitting-set call (measures/rim.py)\<close>

text \<open>
  A Python set of tuple keys is a duplicate-free list, iterated in insertion order;
  \<open>set(...)\<close> of what a generator yields is \<open>remdups\<close>, and \<open>universe |= e\<close> appends the
  elements of \<open>e\<close> that are new.
\<close>

fun build_loop ::
  "mis list \<Rightarrow> TupleKey list list \<Rightarrow> TupleKey list
   \<Rightarrow> py_error + (TupleKey list list \<times> TupleKey list)" where
  "build_loop [] edges universe = Inr (edges, universe)"
| "build_loop (m # rest) edges universe =
     (case iter_mis_tuples m of
        Inl err \<Rightarrow> Inl err
      | Inr yielded \<Rightarrow>
          let e = remdups yielded
          in if e = [] then build_loop rest edges universe
             else build_loop rest (edges @ [e]) (universe @ filter (\<lambda>tk. tk \<notin> set universe) e))"

definition build_hypergraph_from_mis ::
  "mis list \<Rightarrow> py_error + (TupleKey list list \<times> TupleKey list)" where
  "build_hypergraph_from_mis mis_list = build_loop mis_list [] []"

text \<open>
  The CP-SAT model that \<open>solve_min_hitting_set_size_cpsat\<close> hands to OR-tools: one Boolean
  variable per node, one constraint \<open>sum(x[i] for i in e) >= 1\<close> per listed edge, the
  objective \<open>sum x\<close> and the optional bound \<open>obj <= upper_bound\<close>. The solver is an external
  library running under a time limit; it is a parameter that maps the model to a status and
  an objective value.
\<close>

datatype cp_status = OPTIMAL | FEASIBLE | INFEASIBLE | MODEL_INVALID | UNKNOWN

record cp_model =
  nodes_list :: "nat list"
  covers :: "edge list"
  bound :: "int option"

definition build_cp_model :: "edge list \<Rightarrow> int option \<Rightarrow> cp_model" where
  "build_cp_model edges upper_bound =
     \<lparr>nodes_list = sort (remdups (concat edges)),
      covers = filter (\<lambda>e. e \<noteq> []) edges,
      bound = upper_bound\<rparr>"

definition solve_min_hitting_set_size_cpsat ::
  "(cp_model \<Rightarrow> cp_status \<times> int) \<Rightarrow> edge list \<Rightarrow> int option \<Rightarrow> int \<times> string" where
  "solve_min_hitting_set_size_cpsat cp_solve edges upper_bound =
     (if edges = [] then (0, ''TRIVIAL'')
      else
        case cp_solve (build_cp_model edges upper_bound) of
          (status, objective) \<Rightarrow>
            if status = OPTIMAL then (objective, ''OPTIMAL'')
            else if status = FEASIBLE then (objective, ''FEASIBLE'')
            else ((case upper_bound of
                     Some ub \<Rightarrow> ub
                   | None \<Rightarrow> if status = FEASIBLE then objective else - 1),
                  ''TIMEOUT''))"

section \<open>Per-constraint responsibility and RIM (measures/rim.py)\<close>

record GammaResult =
  gamma :: int
  status :: string
  n_edges :: nat
  n_nodes :: nat

record rim_state =
  rho :: "(TupleKey \<times> rat) list"
  gamma_details :: "(TupleKey \<times> GammaResult) list"
  cache :: "int list \<rightharpoonup> int \<times> string"

text \<open>\<open>node_id[tk]\<close>: the position of \<open>tk\<close> in \<open>all_nodes\<close>.\<close>

definition node_id :: "TupleKey list \<Rightarrow> TupleKey \<Rightarrow> nat" where
  "node_id all_nodes tk = length (takeWhile (\<lambda>x. x \<noteq> tk) all_nodes)"

text \<open>
  \<open>1.0 / (1.0 + g)\<close>: the int \<open>g\<close> is converted to a double, the sum and the quotient are
  rounded, and the division raises when the rounded sum is \<open>0.0\<close>.
\<close>

definition rho_of_gamma :: "int \<Rightarrow> py_error + rat" where
  "rho_of_gamma g =
     (let s = double_round (1 + double_round (of_int g))
      in if s = 0 then Inl ZeroDivisionError else Inr (double_round (1 / s)))"

text \<open>
  One iteration of \<open>for t in universe\<close>. \<open>py_hash\<close> is the builtin \<open>hash\<close> on a tuple of
  ints; \<open>cp_solve t\<close> is the answer of the solver to the one call this iteration may make.
  The field \<open>runtime_ms\<close> of \<open>GammaResult\<close> is wall-clock time and is left out.
\<close>

definition rim_step ::
  "(TupleKey \<Rightarrow> cp_model \<Rightarrow> cp_status \<times> int) \<Rightarrow> (nat list \<Rightarrow> int) \<Rightarrow> bool
   \<Rightarrow> edge list \<Rightarrow> TupleKey list \<Rightarrow> TupleKey \<Rightarrow> rim_state \<Rightarrow> py_error + rim_state" where
  "rim_step cp_solve py_hash enable_cache edges_ids all_nodes t st =
     (let t_id = node_id all_nodes t;
          filtered = filter (\<lambda>e. t_id \<notin> set e) edges_ids;
          sig = sort (map (\<lambda>e. py_hash (sort e)) filtered)
      in case (if enable_cache then cache st sig else None) of
           Some (g, stat) \<Rightarrow>
             (case rho_of_gamma g of
                Inl err \<Rightarrow> Inl err
              | Inr r \<Rightarrow>
                  Inr (st\<lparr>gamma_details :=
                            AList.update t \<lparr>gamma = g, status = stat, n_edges = length filtered,
                                            n_nodes = length all_nodes\<rparr> (gamma_details st),
                          rho := AList.update t r (rho st)\<rparr>))
         | None \<Rightarrow>
             let ub = greedy_hitting_set_size filtered;
                 (g0, stat0) = solve_min_hitting_set_size_cpsat (cp_solve t) filtered (Some ub);
                 (g, stat) = (if g0 < 0 then (ub, ''TIMEOUT'') else (g0, stat0));
                 cache' = (if enable_cache then (cache st)(sig \<mapsto> (g, stat)) else cache st)
             in case rho_of_gamma g of
                  Inl err \<Rightarrow> Inl err
                | Inr r \<Rightarrow>
                    Inr \<lparr>rho = AList.update t r (rho st),
                         gamma_details =
                           AList.update t \<lparr>gamma = g, status = stat, n_edges = length filtered,
                                           n_nodes = length all_nodes\<rparr> (gamma_details st),
                         cache = cache'\<rparr>)"

fun rim_loop ::
  "(TupleKey \<Rightarrow> cp_model \<Rightarrow> cp_status \<times> int) \<Rightarrow> (nat list \<Rightarrow> int) \<Rightarrow> bool
   \<Rightarrow> edge list \<Rightarrow> TupleKey list \<Rightarrow> TupleKey list \<Rightarrow> rim_state \<Rightarrow> py_error + rim_state" where
  "rim_loop cp_solve py_hash enable_cache edges_ids all_nodes [] st = Inr st"
| "rim_loop cp_solve py_hash enable_cache edges_ids all_nodes (t # ts) st =
     (case rim_step cp_solve py_hash enable_cache edges_ids all_nodes t st of
        Inl err \<Rightarrow> Inl err
      | Inr st' \<Rightarrow> rim_loop cp_solve py_hash enable_cache edges_ids all_nodes ts st')"

text \<open>
  The part of \<open>compute_rim_for_dc\<close> up to the end of the loop: the hypergraph, the node ids
  and the responsibilities \<open>rho\<close>. Every key given to \<open>node_id\<close> is in \<open>universe\<close>, because
  the builder puts every element of every edge there.
\<close>

definition rim_responsibilities ::
  "(TupleKey \<Rightarrow> cp_model \<Rightarrow> cp_status \<times> int) \<Rightarrow> (nat list \<Rightarrow> int) \<Rightarrow> bool
   \<Rightarrow> TupleKey list list \<Rightarrow> TupleKey list \<Rightarrow> py_error + rim_state" where
  "rim_responsibilities cp_solve py_hash enable_cache edges_tk universe =
     (let all_nodes = sort universe;
          edges_ids = map (\<lambda>e. remdups (map (node_id all_nodes) e)) edges_tk
      in rim_loop cp_solve py_hash enable_cache edges_ids all_nodes universe
           \<lparr>rho = [], gamma_details = [], cache = Map.empty\<rparr>)"

text \<open>
  \<open>m = len(mis_list)\<close> counts every entry of the MIS list, also the entries that yield no
  tuple and that the hypergraph builder skips. \<open>denom = sum(rho.values())\<close> adds doubles, and
  \<open>(rho[t] / denom) * m\<close> rounds the quotient, the conversion of the int \<open>m\<close> and the product.
\<close>

definition compute_rim_for_dc ::
  "(TupleKey \<Rightarrow> cp_model \<Rightarrow> cp_status \<times> int) \<Rightarrow> (nat list \<Rightarrow> int)
   \<Rightarrow> mis list \<Rightarrow> bool
   \<Rightarrow> py_error + ((TupleKey \<times> rat) list \<times> (TupleKey \<times> GammaResult) list)" where
  "compute_rim_for_dc cp_solve py_hash mis_list enable_cache =
     (let m = length mis_list
      in if m = 0 then Inr ([], [])
         else
           case build_hypergraph_from_mis mis_list of
             Inl err \<Rightarrow> Inl err
           | Inr (edges_tk, universe) \<Rightarrow>
               (case rim_responsibilities cp_solve py_hash enable_cache edges_tk universe of
                  Inl err \<Rightarrow> Inl err
                | Inr st \<Rightarrow>
                    let denom = py_sum (map snd (rho st))
                    in if denom \<le> 0 then Inr ([], gamma_details st)
                       else
                         case collect (\<lambda>t. case map_of (rho st) t of
                                              None \<Rightarrow> Inl KeyError
                                            | Some r \<Rightarrow>
                                                Inr (t, double_round (double_round (r / denom)
                                                                      * double_round (of_nat m))))
                                universe of
                           Inl err \<Rightarrow> Inl err
                         | Inr rim_contrib \<Rightarrow> Inr (rim_contrib, gamma_details st)))"

lemma greedy_hitting_set_size_nonneg: "0 \<le> greedy_hitting_set_size edges"
  by (simp add: greedy_size_is_picks)

lemma rho_of_gamma_nonneg:
  assumes "0 \<le> g"
  shows "\<exists>r. rho_of_gamma g = Inr r \<and> 0 < r \<and> r \<le> 1 \<and> (r = 1 \<longleftrightarrow> g = 0)"
proof (cases "g = 0")
  case True
  then show ?thesis by (simp add: rho_of_gamma_def double_round_0 double_round_1)
next
  case False
  with assms have g: "1 \<le> g" by simp
  define x where "x = 1 + double_round (of_int g :: rat)"
  have "(1::rat) \<le> of_int g" using g by simp
  moreover have u: "0 < unit_roundoff" "unit_roundoff < 1" by (rule unit_roundoff_range)+
  ultimately have "(1 - unit_roundoff) * 1 \<le> (1 - unit_roundoff) * of_int g"
    by (intro mult_left_mono) simp_all
  also have "\<dots> \<le> double_round (of_int g)" using g by (intro double_round_lower) simp
  finally have x: "2 - unit_roundoff \<le> x" by (simp add: x_def)
  with u have "0 < x" by simp
  then have s: "double_round x \<noteq> 0" using double_round_pos [of x] by simp
  from double_reciprocal_less_one [OF x]
  have "0 < double_round (1 / double_round x)" "double_round (1 / double_round x) < 1" .
  with s False show ?thesis by (simp add: rho_of_gamma_def Let_def x_def)
qed

lemma alist_update_fresh: "k \<notin> fst ` set al \<Longrightarrow> AList.update k v al = al @ [(k, v)]"
  by (induction al) auto

lemma alist_update_set: "p \<in> set (AList.update k v al) \<Longrightarrow> p = (k, v) \<or> p \<in> set al"
  by (induction al) (auto split: if_splits)

definition rim_inv :: "rim_state \<Rightarrow> bool" where
  "rim_inv st \<longleftrightarrow>
     (\<forall>p\<in>set (rho st). 0 < snd p \<and> snd p \<le> 1)
     \<and> (\<forall>sig g s. cache st sig = Some (g, s) \<longrightarrow> 0 \<le> g)"

lemma rim_step_result:
  fixes edges_ids :: "edge list" and all_nodes :: "TupleKey list" and t :: TupleKey
    and py_hash :: "nat list \<Rightarrow> int"
  assumes "rim_inv st"
  defines "filtered \<equiv> filter (\<lambda>e. node_id all_nodes t \<notin> set e) edges_ids"
  defines "sig \<equiv> sort (map (\<lambda>e. py_hash (sort e)) filtered)"
  shows "\<exists>st' g r. rim_step cp_solve py_hash enable_cache edges_ids all_nodes t st = Inr st'
           \<and> 0 \<le> g \<and> rho_of_gamma g = Inr r \<and> (r = 1 \<longleftrightarrow> g = 0)
           \<and> rho st' = AList.update t r (rho st)
           \<and> rim_inv st'
           \<and> ((\<exists>stat. cache st sig = Some (g, stat) \<and> cache st' = cache st)
                \<or> (g = (let ub = greedy_hitting_set_size filtered;
                              g0 = fst (solve_min_hitting_set_size_cpsat (cp_solve t) filtered (Some ub))
                          in if g0 < 0 then ub else g0)
                    \<and> (cache st' = cache st \<or> (\<exists>stat. cache st' = (cache st)(sig \<mapsto> (g, stat))))))"
proof -
  show ?thesis
  proof (cases "if enable_cache then cache st sig else None")
    case (Some p)
    obtain g stat where p: "p = (g, stat)" by (cases p)
    from Some p have hit: "cache st sig = Some (g, stat)" by (auto split: if_splits)
    with assms have g: "0 \<le> g" by (auto simp: rim_inv_def)
    from rho_of_gamma_nonneg [OF g] obtain r where
      r: "rho_of_gamma g = Inr r" "0 < r" "r \<le> 1" "r = 1 \<longleftrightarrow> g = 0" by blast
    define st' where "st' = st\<lparr>gamma_details :=
                            AList.update t \<lparr>gamma = g, status = stat, n_edges = length filtered,
                                            n_nodes = length all_nodes\<rparr> (gamma_details st),
                          rho := AList.update t r (rho st)\<rparr>"
    have res: "rim_step cp_solve py_hash enable_cache edges_ids all_nodes t st = Inr st'"
      using Some p r(1)
      unfolding rim_step_def Let_def filtered_def [symmetric] sig_def [symmetric] st'_def
      by simp
    have c: "cache st' = cache st" by (simp add: st'_def)
    have "rim_inv st'"
      using assms r(2,3)
      unfolding rim_inv_def st'_def
      by (auto dest!: alist_update_set)
    moreover have "rho st' = AList.update t r (rho st)" by (simp add: st'_def)
    ultimately show ?thesis using res g hit c r(1,4) by blast
  next
    case None
    define ub where "ub = greedy_hitting_set_size filtered"
    obtain g0 stat0 where sol:
      "solve_min_hitting_set_size_cpsat (cp_solve t) filtered (Some ub) = (g0, stat0)"
      by (cases "solve_min_hitting_set_size_cpsat (cp_solve t) filtered (Some ub)")
    define g where "g = (if g0 < 0 then ub else g0)"
    define stat where "stat = (if g0 < 0 then ''TIMEOUT'' else stat0)"
    have g: "0 \<le> g" using greedy_hitting_set_size_nonneg [of filtered] by (simp add: g_def ub_def)
    from rho_of_gamma_nonneg [OF g] obtain r where
      r: "rho_of_gamma g = Inr r" "0 < r" "r \<le> 1" "r = 1 \<longleftrightarrow> g = 0" by blast
    define st' where "st' = \<lparr>rho = AList.update t r (rho st),
                         gamma_details =
                           AList.update t \<lparr>gamma = g, status = stat, n_edges = length filtered,
                                           n_nodes = length all_nodes\<rparr> (gamma_details st),
                         cache = (if enable_cache then (cache st)(sig \<mapsto> (g, stat)) else cache st)\<rparr>"
    have r': "rho_of_gamma (if g0 < 0 then ub else g0) = Inr r" using r(1) by (simp add: g_def)
    have res: "rim_step cp_solve py_hash enable_cache edges_ids all_nodes t st = Inr st'"
      using None sol r'
      unfolding rim_step_def Let_def filtered_def [symmetric] sig_def [symmetric]
        ub_def [symmetric] st'_def g_def stat_def
      by (simp split: if_splits)
    have gv: "g = (let ub = greedy_hitting_set_size filtered;
                       g0 = fst (solve_min_hitting_set_size_cpsat (cp_solve t) filtered (Some ub))
                   in if g0 < 0 then ub else g0)"
      using sol by (simp add: g_def ub_def Let_def)
    have c: "cache st' = cache st \<or> (\<exists>stat. cache st' = (cache st)(sig \<mapsto> (g, stat)))"
      by (auto simp: st'_def)
    have "rim_inv st'"
      using assms r(2,3) g
      unfolding rim_inv_def st'_def
      by (auto dest!: alist_update_set split: if_splits)
    moreover have "rho st' = AList.update t r (rho st)" by (simp add: st'_def)
    ultimately show ?thesis using res g gv c r(1,4) by blast
  qed
qed


lemma rim_loop_result:
  assumes "rim_inv st" and "distinct ts" and "set ts \<inter> fst ` set (rho st) = {}"
  shows "\<exists>st'. rim_loop cp_solve py_hash enable_cache edges_ids all_nodes ts st = Inr st'
           \<and> rim_inv st' \<and> map fst (rho st') = map fst (rho st) @ ts"
  using assms
proof (induction ts arbitrary: st)
  case Nil
  then show ?case by simp
next
  case (Cons t ts)
  from rim_step_result [OF Cons.prems(1), where cp_solve = cp_solve and py_hash = py_hash
      and enable_cache = enable_cache and edges_ids = edges_ids and all_nodes = all_nodes and t = t]
  obtain st1 r where
    step: "rim_step cp_solve py_hash enable_cache edges_ids all_nodes t st = Inr st1" and
    rho1: "rho st1 = AList.update t r (rho st)" and
    inv1: "rim_inv st1"
    by blast
  from Cons.prems(3) have fresh: "t \<notin> fst ` set (rho st)" by auto
  have keys1: "map fst (rho st1) = map fst (rho st) @ [t]"
    by (simp add: rho1 alist_update_fresh [OF fresh])
  have "set ts \<inter> fst ` set (rho st1) = {}"
  proof -
    have "fst ` set (rho st1) = set (map fst (rho st1))" by simp
    also have "\<dots> = fst ` set (rho st) \<union> {t}" unfolding keys1 by simp
    finally show ?thesis using Cons.prems(2,3) by auto
  qed
  with Cons.prems(2) Cons.IH [OF inv1, of ] obtain st' where
    "rim_loop cp_solve py_hash enable_cache edges_ids all_nodes ts st1 = Inr st'"
    "rim_inv st'" "map fst (rho st') = map fst (rho st1) @ ts"
    by auto
  then show ?case using step keys1 by simp
qed

lemma rim_responsibilities_result:
  assumes "distinct universe"
  shows "\<exists>st. rim_responsibilities cp_solve py_hash enable_cache edges_tk universe = Inr st
           \<and> rim_inv st \<and> map fst (rho st) = universe"
proof -
  have "rim_inv \<lparr>rho = [], gamma_details = [], cache = Map.empty\<rparr>"
    by (simp add: rim_inv_def)
  from rim_loop_result [OF this assms, of cp_solve py_hash enable_cache _ "sort universe"]
  show ?thesis unfolding rim_responsibilities_def Let_def by simp
qed

lemma build_loop_distinct:
  "distinct universe \<Longrightarrow> build_loop ms edges universe = Inr (E, U) \<Longrightarrow> distinct U"
proof (induction ms arbitrary: edges universe)
  case Nil
  then show ?case by simp
next
  case (Cons m ms)
  from Cons.prems(2) obtain yielded where y: "iter_mis_tuples m = Inr yielded"
    by (cases "iter_mis_tuples m") auto
  show ?case
  proof (cases "remdups yielded = []")
    case True
    with Cons.prems y have "build_loop ms edges universe = Inr (E, U)" by simp
    from Cons.IH [OF Cons.prems(1) this] show ?thesis .
  next
    case False
    let ?U = "universe @ filter (\<lambda>tk. tk \<notin> set universe) (remdups yielded)"
    from False Cons.prems y have
      "build_loop ms (edges @ [remdups yielded]) ?U = Inr (E, U)"
      by (simp add: Let_def)
    moreover have "distinct ?U" using Cons.prems(1) by auto
    ultimately show ?thesis using Cons.IH by blast
  qed
qed

lemma build_hypergraph_distinct:
  "build_hypergraph_from_mis mis_list = Inr (E, U) \<Longrightarrow> distinct U"
  unfolding build_hypergraph_from_mis_def using build_loop_distinct [of "[]"] by simp

lemma collect_cong: "(\<And>x. x \<in> set xs \<Longrightarrow> f x = g x) \<Longrightarrow> collect f xs = collect g xs"
proof (induction xs)
  case Nil
  then show ?case by simp
next
  case (Cons a xs)
  have "collect f xs = collect g xs" by (rule Cons.IH) (simp add: Cons.prems)
  moreover have "f a = g a" by (rule Cons.prems) simp
  ultimately show ?case by (simp split: sum.splits)
qed

lemma collect_lookup:
  assumes "distinct (map fst al)"
  shows "collect (\<lambda>t. case map_of al t of None \<Rightarrow> Inl KeyError | Some r \<Rightarrow> Inr (t, f r))
           (map fst al) = Inr (map (\<lambda>p. (fst p, f (snd p))) al)"
  using assms
proof (induction al)
  case Nil
  then show ?case by simp
next
  case (Cons p al)
  obtain k v where p: "p = (k, v)" by (cases p)
  from Cons.prems p have k: "k \<notin> fst ` set al" and d: "distinct (map fst al)" by auto
  have "collect (\<lambda>t. case map_of (p # al) t of None \<Rightarrow> Inl KeyError | Some r \<Rightarrow> Inr (t, f r))
          (map fst al)
      = collect (\<lambda>t. case map_of al t of None \<Rightarrow> Inl KeyError | Some r \<Rightarrow> Inr (t, f r))
          (map fst al)"
    using k by (intro collect_cong) (auto simp: p)
  with Cons.IH [OF d] show ?case by (simp add: p)
qed

lemma sum_list_pos_nonempty:
  fixes xs :: "rat list"
  assumes "xs \<noteq> []" and "\<forall>x\<in>set xs. 0 < x"
  shows "0 < sum_list xs"
proof -
  from assms(1) obtain x rest where xs: "xs = x # rest" by (cases xs) auto
  with assms(2) have x: "0 < x" and r: "\<forall>y\<in>set rest. 0 \<le> y" by (auto intro: less_imp_le)
  from r have "0 \<le> sum_list rest" by (intro sum_list_nonneg) simp
  with x show ?thesis by (simp add: xs)
qed



section \<open>Per-answer responsibility (compute\_icqa\_resp.py)\<close>

text \<open>
  \<open>min_hitting_set_size_for_t\<close> asks the SAT solver Glucose4 (an external library) whether
  the clauses \<open>OR_{i in S} x_i\<close>, one per set, hold together with the cardinality constraint
  \<open>sum x_i <= k\<close> over the variables of \<open>range(n)\<close>. The call \<open>solver.solve()\<close> is represented
  by what it decides: whether some \<open>H \<subseteq> {0..<n}\<close> with at most \<open>k\<close> elements meets every
  set. The support sets are subsets of \<open>range(n)\<close>, as \<open>compute_resp_for_query\<close> builds them.
\<close>

definition solver_solve :: "nat \<Rightarrow> nat list list \<Rightarrow> nat \<Rightarrow> bool" where
  "solver_solve n sets k =
     (\<exists>H\<in>set (subseqs [0..<n]). length H \<le> k \<and> (\<forall>S\<in>set sets. \<exists>i\<in>set S. i \<in> set H))"

text \<open>
  The loop \<open>for k in range(0, n + 1)\<close>: an empty set among the clauses returns 0 before the
  solver is asked; \<open>return n\<close> follows the loop.
\<close>

fun sat_loop :: "nat \<Rightarrow> nat list list \<Rightarrow> nat list \<Rightarrow> int" where
  "sat_loop n sets [] = int n"
| "sat_loop n sets (k # ks) =
     (if \<exists>S\<in>set sets. S = [] then 0
      else if solver_solve n sets k then int k
      else sat_loop n sets ks)"

definition min_hitting_set_size_for_t :: "nat list list \<Rightarrow> nat \<Rightarrow> nat \<Rightarrow> int" where
  "min_hitting_set_size_for_t support_sets universe_size t_idx =
     (let sets_minus_t = filter (\<lambda>S. t_idx \<notin> set S) support_sets
      in if sets_minus_t = [] then 0
         else sat_loop universe_size sets_minus_t [0..<universe_size + 1])"

text \<open>
  \<open>rho[tid] = 1.0 / (1 + h_star)\<close> in \<open>compute_resp_for_query\<close>; \<open>h_star\<close> is never \<open>None\<close>.
  The int \<open>1 + h_star\<close> is converted to a double and the quotient is rounded.
\<close>

definition resp_rho :: "nat list list \<Rightarrow> nat \<Rightarrow> nat \<Rightarrow> rat" where
  "resp_rho support_sets n idx_t =
     (let h_star = min_hitting_set_size_for_t support_sets n idx_t
      in double_round (1 / double_round (of_int (1 + h_star))))"

lemma solver_solve_zero:
  assumes "sets \<noteq> []" and "\<forall>S\<in>set sets. S \<noteq> []"
  shows "\<not> solver_solve n sets 0"
proof -
  from assms(1) obtain S where "S \<in> set sets" by (cases sets) auto
  then show ?thesis by (auto simp: solver_solve_def)
qed

lemma sat_loop_pos:
  assumes "sets \<noteq> []" and "\<forall>S\<in>set sets. S \<noteq> []" and "0 < n" and "\<forall>k\<in>set ks. 0 < k"
  shows "0 < sat_loop n sets ks"
  using assms(4)
proof (induction ks)
  case Nil
  then show ?case using assms(3) by simp
next
  case (Cons k ks)
  then show ?case using assms(2) by auto
qed

lemma min_hitting_set_size_for_t_zero_iff:
  assumes "\<forall>S\<in>set support_sets. S \<noteq> []" and "0 < n"
  shows "0 \<le> min_hitting_set_size_for_t support_sets n t"
    and "min_hitting_set_size_for_t support_sets n t = 0 \<longleftrightarrow> (\<forall>S\<in>set support_sets. t \<in> set S)"
proof -
  define sets where "sets = filter (\<lambda>S. t \<notin> set S) support_sets"
  have ne: "\<forall>S\<in>set sets. S \<noteq> []" using assms(1) by (simp add: sets_def)
  have empty_iff: "sets = [] \<longleftrightarrow> (\<forall>S\<in>set support_sets. t \<in> set S)"
    by (auto simp: sets_def filter_empty_conv)
  have pos: "0 < sat_loop n sets [0..<n + 1]" if "sets \<noteq> []"
  proof -
    have up: "[0..<n + 1] = 0 # [1..<n + 1]" by (simp add: upt_rec)
    have "0 < sat_loop n sets [1..<n + 1]"
      by (rule sat_loop_pos [OF that ne assms(2)]) auto
    then show ?thesis unfolding up using ne solver_solve_zero [OF that ne] by simp
  qed
  have val: "min_hitting_set_size_for_t support_sets n t
               = (if sets = [] then 0 else sat_loop n sets [0..<n + 1])"
    by (simp add: min_hitting_set_size_for_t_def sets_def)
  show "0 \<le> min_hitting_set_size_for_t support_sets n t"
  proof (cases "sets = []")
    case True
    then show ?thesis unfolding val by simp
  next
    case False
    from pos [OF False] False show ?thesis unfolding val by simp
  qed
  show "min_hitting_set_size_for_t support_sets n t = 0 \<longleftrightarrow> (\<forall>S\<in>set support_sets. t \<in> set S)"
  proof (cases "sets = []")
    case True
    with empty_iff show ?thesis unfolding val by simp
  next
    case False
    from pos [OF False] have "sat_loop n sets [0..<n + 1] \<noteq> 0" by simp
    with False empty_iff show ?thesis unfolding val by simp
  qed
qed

lemma resp_rho_range:
  assumes "\<forall>S\<in>set support_sets. S \<noteq> []" and "0 < n"
  shows "0 < resp_rho support_sets n t \<and> resp_rho support_sets n t \<le> 1
       \<and> (resp_rho support_sets n t = 1 \<longleftrightarrow> (\<forall>S\<in>set support_sets. t \<in> set S))"
proof -
  define h where "h = min_hitting_set_size_for_t support_sets n t"
  have h0: "0 \<le> h" and hz: "h = 0 \<longleftrightarrow> (\<forall>S\<in>set support_sets. t \<in> set S)"
    unfolding h_def by (rule min_hitting_set_size_for_t_zero_iff [OF assms])+
  have r: "resp_rho support_sets n t = double_round (1 / double_round (of_int (1 + h)))"
    by (simp add: resp_rho_def h_def)
  show ?thesis
  proof (cases "h = 0")
    case True
    then show ?thesis unfolding r using hz by (simp add: double_round_1)
  next
    case False
    with h0 have "(2::rat) \<le> of_int (1 + h)" by simp
    with unit_roundoff_range have "2 - unit_roundoff \<le> (of_int (1 + h) :: rat)" by simp
    from double_reciprocal_less_one [OF this] False show ?thesis unfolding r using hz by simp
  qed
qed


text \<open>
  What is assumed of OR-tools: when it reports \<open>OPTIMAL\<close> or \<open>FEASIBLE\<close>, the objective value
  is the number of chosen nodes of an assignment that satisfies every constraint of the
  model.
\<close>

definition cp_sound :: "(TupleKey \<Rightarrow> cp_model \<Rightarrow> cp_status \<times> int) \<Rightarrow> bool" where
  "cp_sound cp_solve \<longleftrightarrow>
     (\<forall>t model stat objective.
        cp_solve t model = (stat, objective) \<and> (stat = OPTIMAL \<or> stat = FEASIBLE) \<longrightarrow>
        (\<exists>H. finite H \<and> objective = int (card H) \<and> hits H (covers model)))"

text \<open>The solver that always runs out of time.\<close>

definition timeout_solver :: "TupleKey \<Rightarrow> cp_model \<Rightarrow> cp_status \<times> int" where
  "timeout_solver t model = (UNKNOWN, 0)"

lemma greedy_zero_iff:
  assumes "\<forall>e\<in>set edges. e \<noteq> []"
  shows "greedy_hitting_set_size edges = 0 \<longleftrightarrow> edges = []"
proof
  assume z: "greedy_hitting_set_size edges = 0"
  define unc where "unc = map remdups (filter (\<lambda>e. e \<noteq> []) edges)"
  have unc: "unc = map remdups edges" using assms by (simp add: unc_def filter_id_conv)
  from z have picks: "greedy_picks unc = []" by (simp add: greedy_size_is_picks unc_def)
  have "\<forall>e\<in>set unc. e \<noteq> []" using assms by (auto simp: unc)
  from greedy_picks_hit [OF this] have "hits {} unc" by (simp add: picks)
  then have "unc = []" by (cases unc) (auto simp: hits_def)
  then show "edges = []" by (simp add: unc)
next
  assume "edges = []"
  then show "greedy_hitting_set_size edges = 0" by (simp add: greedy_hitting_set_size_def)
qed

lemma rim_gamma_zero_iff:
  assumes "cp_sound cp_solve" and "\<forall>e\<in>set filtered. e \<noteq> []"
  shows "(let ub = greedy_hitting_set_size filtered;
              g0 = fst (solve_min_hitting_set_size_cpsat (cp_solve t) filtered (Some ub))
          in if g0 < 0 then ub else g0) = 0 \<longleftrightarrow> filtered = []"
proof (cases "filtered = []")
  case True
  then show ?thesis
    by (simp add: solve_min_hitting_set_size_cpsat_def greedy_hitting_set_size_def)
next
  case False
  define ub where "ub = greedy_hitting_set_size filtered"
  have ub: "1 \<le> ub"
    using greedy_zero_iff [OF assms(2)] False greedy_hitting_set_size_nonneg [of filtered]
    by (simp add: ub_def)
  obtain stat objective where cp:
    "cp_solve t (build_cp_model filtered (Some ub)) = (stat, objective)"
    by (cases "cp_solve t (build_cp_model filtered (Some ub))")
  have "1 \<le> fst (solve_min_hitting_set_size_cpsat (cp_solve t) filtered (Some ub))"
  proof (cases "stat = OPTIMAL \<or> stat = FEASIBLE")
    case True
    with assms(1) cp obtain H where H: "finite H" "objective = int (card H)"
      "hits H (covers (build_cp_model filtered (Some ub)))"
      unfolding cp_sound_def by blast
    have "covers (build_cp_model filtered (Some ub)) = filtered"
      using assms(2) by (simp add: build_cp_model_def filter_id_conv)
    with H(3) have "hits H filtered" by simp
    moreover from False obtain e where "e \<in> set filtered" by (cases filtered) auto
    ultimately have "H \<noteq> {}" by (auto simp: hits_def)
    with H(1) have "1 \<le> card H" by (simp add: Suc_le_eq card_gt_0_iff)
    with H(2) have "1 \<le> objective" by simp
    with True False cp show ?thesis
      by (auto simp: solve_min_hitting_set_size_cpsat_def)
  next
    case stat: False
    with False cp ub show ?thesis
      by (simp add: solve_min_hitting_set_size_cpsat_def)
  qed
  with False ub show ?thesis by (simp add: ub_def [symmetric] Let_def)
qed

lemma node_id_nth: "x \<in> set xs \<Longrightarrow> node_id xs x < length xs \<and> xs ! node_id xs x = x"
  by (induction xs) (auto simp: node_id_def)

lemma node_id_inj:
  "x \<in> set xs \<Longrightarrow> y \<in> set xs \<Longrightarrow> node_id xs x = node_id xs y \<Longrightarrow> x = y"
  using node_id_nth [of x xs] node_id_nth [of y xs] by metis

lemma node_id_member:
  assumes "t \<in> set xs" and "set e \<subseteq> set xs"
  shows "node_id xs t \<in> set (remdups (map (node_id xs) e)) \<longleftrightarrow> t \<in> set e"
  using assms node_id_inj [of t xs] by auto

lemma build_loop_edges:
  assumes "\<forall>e\<in>set edges. e \<noteq> [] \<and> set e \<subseteq> set universe"
    and "build_loop ms edges universe = Inr (E, U)"
  shows "\<forall>e\<in>set E. e \<noteq> [] \<and> set e \<subseteq> set U"
  using assms
proof (induction ms arbitrary: edges universe)
  case Nil
  then show ?case by simp
next
  case (Cons m ms)
  from Cons.prems(2) obtain yielded where y: "iter_mis_tuples m = Inr yielded"
    by (cases "iter_mis_tuples m") auto
  show ?case
  proof (cases "remdups yielded = []")
    case True
    with Cons.prems y have "build_loop ms edges universe = Inr (E, U)" by simp
    from Cons.IH [OF Cons.prems(1) this] show ?thesis .
  next
    case False
    let ?U = "universe @ filter (\<lambda>tk. tk \<notin> set universe) (remdups yielded)"
    from False Cons.prems y have
      b: "build_loop ms (edges @ [remdups yielded]) ?U = Inr (E, U)"
      by (simp add: Let_def)
    have "\<forall>e\<in>set (edges @ [remdups yielded]). e \<noteq> [] \<and> set e \<subseteq> set ?U"
      using Cons.prems(1) False by auto
    from Cons.IH [OF this b] show ?thesis .
  qed
qed

lemma build_hypergraph_edges:
  "build_hypergraph_from_mis mis_list = Inr (E, U) \<Longrightarrow> \<forall>e\<in>set E. e \<noteq> [] \<and> set e \<subseteq> set U"
  unfolding build_hypergraph_from_mis_def using build_loop_edges [of "[]" "[]"] by simp


definition rim_inv_exact :: "edge list \<Rightarrow> TupleKey list \<Rightarrow> rim_state \<Rightarrow> bool" where
  "rim_inv_exact edges_ids all_nodes st \<longleftrightarrow>
     rim_inv st
     \<and> (\<forall>sig g s. cache st sig = Some (g, s) \<longrightarrow> (g = 0 \<longleftrightarrow> sig = []))
     \<and> (\<forall>p\<in>set (rho st).
          snd p = 1 \<longleftrightarrow> filter (\<lambda>e. node_id all_nodes (fst p) \<notin> set e) edges_ids = [])"

lemma rim_step_exact:
  fixes edges_ids :: "edge list" and all_nodes :: "TupleKey list" and t :: TupleKey
    and py_hash :: "nat list \<Rightarrow> int"
  assumes "cp_sound cp_solve" and "\<forall>e\<in>set edges_ids. e \<noteq> []"
    and "rim_inv_exact edges_ids all_nodes st"
  shows "\<exists>st' r. rim_step cp_solve py_hash enable_cache edges_ids all_nodes t st = Inr st'
           \<and> rho st' = AList.update t r (rho st) \<and> rim_inv_exact edges_ids all_nodes st'"
proof -
  define filtered where "filtered = filter (\<lambda>e. node_id all_nodes t \<notin> set e) edges_ids"
  define sig where "sig = sort (map (\<lambda>e. py_hash (sort e)) filtered)"
  have sig_nil: "sig = [] \<longleftrightarrow> filtered = []"
  proof -
    have "length sig = length filtered" by (simp add: sig_def)
    then show ?thesis by (metis length_0_conv)
  qed
  have ne: "\<forall>e\<in>set filtered. e \<noteq> []" using assms(2) by (simp add: filtered_def)
  from assms(3) have inv: "rim_inv st"
    and cinv: "\<forall>sig g s. cache st sig = Some (g, s) \<longrightarrow> (g = 0 \<longleftrightarrow> sig = [])"
    and rinv: "\<forall>p\<in>set (rho st).
          snd p = 1 \<longleftrightarrow> filter (\<lambda>e. node_id all_nodes (fst p) \<notin> set e) edges_ids = []"
    by (simp_all add: rim_inv_exact_def)
  from rim_step_result [OF inv, where cp_solve = cp_solve and py_hash = py_hash
      and enable_cache = enable_cache and edges_ids = edges_ids and all_nodes = all_nodes and t = t,
      folded filtered_def, folded sig_def]
  obtain st' g r where
    res: "rim_step cp_solve py_hash enable_cache edges_ids all_nodes t st = Inr st'" and
    g0: "0 \<le> g" and
    one: "r = 1 \<longleftrightarrow> g = 0" and
    rho': "rho st' = AList.update t r (rho st)" and
    inv': "rim_inv st'" and
    src: "(\<exists>stat. cache st sig = Some (g, stat) \<and> cache st' = cache st)
          \<or> (g = (let ub = greedy_hitting_set_size filtered;
                       g0 = fst (solve_min_hitting_set_size_cpsat (cp_solve t) filtered (Some ub))
                   in if g0 < 0 then ub else g0)
              \<and> (cache st' = cache st \<or> (\<exists>stat. cache st' = (cache st)(sig \<mapsto> (g, stat)))))"
    by blast
  have gz: "g = 0 \<longleftrightarrow> filtered = []"
    using src
  proof
    assume "\<exists>stat. cache st sig = Some (g, stat) \<and> cache st' = cache st"
    with cinv sig_nil show ?thesis by blast
  next
    assume "g = (let ub = greedy_hitting_set_size filtered;
                     g0 = fst (solve_min_hitting_set_size_cpsat (cp_solve t) filtered (Some ub))
                 in if g0 < 0 then ub else g0)
            \<and> (cache st' = cache st \<or> (\<exists>stat. cache st' = (cache st)(sig \<mapsto> (g, stat))))"
    then show ?thesis using rim_gamma_zero_iff [OF assms(1) ne, of t] by simp
  qed
  have cinv': "\<forall>sig g s. cache st' sig = Some (g, s) \<longrightarrow> (g = 0 \<longleftrightarrow> sig = [])"
  proof -
    from src have "cache st' = cache st \<or> (\<exists>stat. cache st' = (cache st)(sig \<mapsto> (g, stat)))"
      by blast
    then show ?thesis
    proof
      assume "cache st' = cache st"
      with cinv show ?thesis by simp
    next
      assume "\<exists>stat. cache st' = (cache st)(sig \<mapsto> (g, stat))"
      then obtain stat where "cache st' = (cache st)(sig \<mapsto> (g, stat))" by blast
      with cinv gz sig_nil show ?thesis by (auto split: if_splits)
    qed
  qed
  have rinv': "\<forall>p\<in>set (rho st').
          snd p = 1 \<longleftrightarrow> filter (\<lambda>e. node_id all_nodes (fst p) \<notin> set e) edges_ids = []"
  proof
    fix p assume "p \<in> set (rho st')"
    then have "p = (t, r) \<or> p \<in> set (rho st)"
      unfolding rho' by (rule alist_update_set)
    then show "snd p = 1 \<longleftrightarrow> filter (\<lambda>e. node_id all_nodes (fst p) \<notin> set e) edges_ids = []"
    proof
      assume "p = (t, r)"
      then show ?thesis using one gz by (simp add: filtered_def)
    next
      assume "p \<in> set (rho st)"
      with rinv show ?thesis by blast
    qed
  qed
  have "rim_inv_exact edges_ids all_nodes st'"
    unfolding rim_inv_exact_def using inv' cinv' rinv' by blast
  with res rho' show ?thesis by blast
qed

lemma rim_loop_exact:
  fixes edges_ids :: "edge list" and all_nodes :: "TupleKey list"
    and py_hash :: "nat list \<Rightarrow> int"
  assumes "cp_sound cp_solve" and "\<forall>e\<in>set edges_ids. e \<noteq> []"
    and "rim_inv_exact edges_ids all_nodes st"
    and "distinct ts" and "set ts \<inter> fst ` set (rho st) = {}"
  shows "\<exists>st'. rim_loop cp_solve py_hash enable_cache edges_ids all_nodes ts st = Inr st'
           \<and> rim_inv_exact edges_ids all_nodes st' \<and> map fst (rho st') = map fst (rho st) @ ts"
  using assms(3,4,5)
proof (induction ts arbitrary: st)
  case Nil
  then show ?case by simp
next
  case (Cons t ts)
  from rim_step_exact [OF assms(1,2) Cons.prems(1), where py_hash = py_hash
      and enable_cache = enable_cache and t = t]
  obtain st1 r where
    step: "rim_step cp_solve py_hash enable_cache edges_ids all_nodes t st = Inr st1" and
    rho1: "rho st1 = AList.update t r (rho st)" and
    inv1: "rim_inv_exact edges_ids all_nodes st1"
    by blast
  from Cons.prems(3) have fresh: "t \<notin> fst ` set (rho st)" by auto
  have keys1: "map fst (rho st1) = map fst (rho st) @ [t]"
    by (simp add: rho1 alist_update_fresh [OF fresh])
  have disj: "set ts \<inter> fst ` set (rho st1) = {}"
  proof -
    have "fst ` set (rho st1) = set (map fst (rho st1))" by simp
    also have "\<dots> = fst ` set (rho st) \<union> {t}" unfolding keys1 by simp
    finally show ?thesis using Cons.prems(2,3) by auto
  qed
  from Cons.prems(2) have "distinct ts" by simp
  from Cons.IH [OF inv1 this disj] obtain st' where
    "rim_loop cp_solve py_hash enable_cache edges_ids all_nodes ts st1 = Inr st'"
    "rim_inv_exact edges_ids all_nodes st'" "map fst (rho st') = map fst (rho st1) @ ts"
    by blast
  then show ?case using step keys1 by simp
qed

lemma rim_responsibility_value:
  assumes "cp_sound cp_solve"
    and "build_hypergraph_from_mis mis_list = Inr (edges_tk, universe)"
    and "t \<in> set universe"
  shows "\<exists>st r. rim_responsibilities cp_solve py_hash enable_cache edges_tk universe = Inr st
           \<and> map_of (rho st) t = Some r \<and> 0 < r \<and> r \<le> 1
           \<and> (r = 1 \<longleftrightarrow> (\<forall>e\<in>set edges_tk. t \<in> set e))"
proof -
  define all_nodes where "all_nodes = sort universe"
  define edges_ids where "edges_ids = map (\<lambda>e. remdups (map (node_id all_nodes) e)) edges_tk"
  have dist: "distinct universe" by (rule build_hypergraph_distinct [OF assms(2)])
  have edges: "\<forall>e\<in>set edges_tk. e \<noteq> [] \<and> set e \<subseteq> set universe"
    by (rule build_hypergraph_edges [OF assms(2)])
  have ne: "\<forall>e\<in>set edges_ids. e \<noteq> []" using edges by (auto simp: edges_ids_def)
  have init: "rim_inv_exact edges_ids all_nodes \<lparr>rho = [], gamma_details = [], cache = Map.empty\<rparr>"
    by (simp add: rim_inv_exact_def rim_inv_def)
  from rim_loop_exact [OF assms(1) ne init dist, where py_hash = py_hash
      and enable_cache = enable_cache]
  obtain st where
    st: "rim_loop cp_solve py_hash enable_cache edges_ids all_nodes universe
           \<lparr>rho = [], gamma_details = [], cache = Map.empty\<rparr> = Inr st" and
    inv: "rim_inv_exact edges_ids all_nodes st" and
    keys: "map fst (rho st) = universe"
    by auto
  have res: "rim_responsibilities cp_solve py_hash enable_cache edges_tk universe = Inr st"
    using st by (simp add: rim_responsibilities_def all_nodes_def edges_ids_def Let_def)
  from assms(3) keys have "t \<in> fst ` set (rho st)" by (metis list.set_map)
  then obtain r where r: "map_of (rho st) t = Some r"
    by (metis domD dom_map_of_conv_image_fst)
  then have mem: "(t, r) \<in> set (rho st)" by (rule map_of_SomeD)
  with inv have range: "0 < r" "r \<le> 1"
    by (auto simp: rim_inv_exact_def rim_inv_def)
  from inv mem have one: "r = 1 \<longleftrightarrow> filter (\<lambda>e. node_id all_nodes t \<notin> set e) edges_ids = []"
    by (auto simp: rim_inv_exact_def)
  have tn: "t \<in> set all_nodes" using assms(3) by (simp add: all_nodes_def)
  have "filter (\<lambda>e. node_id all_nodes t \<notin> set e) edges_ids = []
          \<longleftrightarrow> (\<forall>e\<in>set edges_tk. t \<in> set e)"
  proof -
    have "filter (\<lambda>e. node_id all_nodes t \<notin> set e) edges_ids = []
            \<longleftrightarrow> (\<forall>e\<in>set edges_tk. node_id all_nodes t \<in> set (remdups (map (node_id all_nodes) e)))"
      by (auto simp: edges_ids_def filter_empty_conv)
    also have "\<dots> \<longleftrightarrow> (\<forall>e\<in>set edges_tk. t \<in> set e)"
    proof (intro ball_cong refl)
      fix e assume "e \<in> set edges_tk"
      with edges have "set e \<subseteq> set all_nodes" by (simp add: all_nodes_def)
      from node_id_member [OF tn this]
      show "node_id all_nodes t \<in> set (remdups (map (node_id all_nodes) e)) \<longleftrightarrow> t \<in> set e" .
    qed
    finally show ?thesis .
  qed
  with one have "r = 1 \<longleftrightarrow> (\<forall>e\<in>set edges_tk. t \<in> set e)" by simp
  with res r range show ?thesis by blast
qed

definition example_mis_list :: "mis list" where
  "example_mis_list =
     [\<lparr>tuples = Some (TuplesDict [(''part'', PList [PInt 1, PInt 2])])\<rparr>,
      \<lparr>tuples = Some (TuplesDict [(''part'', PList [PInt 1, PInt 3])])\<rparr>]"

definition example_hash :: "nat list \<Rightarrow> int" where
  "example_hash xs = int (sum_list xs)"

text \<open>Three witness sets \<open>{1}\<close>, \<open>{1, 2}\<close> and \<open>{1, 3, 4}\<close> of one constraint.\<close>

definition nested_mis_list :: "mis list" where
  "nested_mis_list =
     [\<lparr>tuples = Some (TuplesDict [(''part'', PList [PInt 1])])\<rparr>,
      \<lparr>tuples = Some (TuplesDict [(''part'', PList [PInt 1, PInt 2])])\<rparr>,
      \<lparr>tuples = Some (TuplesDict [(''part'', PList [PInt 1, PInt 3, PInt 4])])\<rparr>]"

text \<open>An MIS list whose second entry yields no tuple.\<close>

definition gapped_mis_list :: "mis list" where
  "gapped_mis_list =
     [\<lparr>tuples = Some (TuplesDict [(''part'', PList [PInt 1, PInt 2])])\<rparr>,
      \<lparr>tuples = Some (TuplesDict [(''orders'', PNone)])\<rparr>,
      \<lparr>tuples = Some (TuplesDict [(''part'', PList [PInt 1, PInt 3])])\<rparr>]"

lemma build_loop_skip:
  assumes "iter_mis_tuples m = Inr []"
  shows "build_loop (before @ m # after) edges universe = build_loop (before @ after) edges universe"
proof (induction before arbitrary: edges universe)
  case Nil
  then show ?case using assms by simp
next
  case (Cons a before)
  then show ?case by (simp add: Let_def split: sum.splits)
qed

lemma example_build:
  "build_hypergraph_from_mis example_mis_list
     = Inr ([[(''part'', [1]), (''part'', [2])], [(''part'', [1]), (''part'', [3])]],
            [(''part'', [1]), (''part'', [2]), (''part'', [3])])"
  by code_simp

lemma timeout_solver_sound: "cp_sound timeout_solver"
  by (simp add: cp_sound_def timeout_solver_def)


text \<open>
  C2, as stated, fails: a witness set with no element is not rejected. The builder returns
  the hypergraph of the other witness sets, without any error.
\<close>

theorem empty_witness_set_not_rejected_counterexample:
  "build_hypergraph_from_mis
     [\<lparr>tuples = Some (TuplesDict [])\<rparr>,
      \<lparr>tuples = Some (TuplesDict [(''part'', PList [PInt 7])])\<rparr>]
   = Inr ([[(''part'', [7])]], [(''part'', [7])])"
  by code_simp

text \<open>
  C2, amended. A witness set with zero elements raises no error and is ignored: the
  hypergraph builder returns what it returns without it (it is neither an edge nor part of
  the universe), the greedy bound is the bound without it, and the hitting-set solver builds
  the same CP-SAT model as without it (no constraint is added for it).
\<close>

theorem empty_witness_set_is_skipped:
  assumes "iter_mis_tuples m = Inr []"
  shows "build_hypergraph_from_mis (before @ m # after) = build_hypergraph_from_mis (before @ after)
       \<and> greedy_hitting_set_size (xs @ [] # ys) = greedy_hitting_set_size (xs @ ys)
       \<and> build_cp_model (xs @ [] # ys) ub = build_cp_model (xs @ ys) ub"
  using build_loop_skip [OF assms]
  by (simp add: build_hypergraph_from_mis_def greedy_hitting_set_size_def build_cp_model_def)

theorem empty_witness_set_is_skipped_witness:
  "build_hypergraph_from_mis ([\<lparr>tuples = Some (TuplesDict [(''part'', PList [PInt 7])])\<rparr>]
        @ \<lparr>tuples = Some (TuplesDict [(''orders'', PNone)])\<rparr> # [])
     = build_hypergraph_from_mis ([\<lparr>tuples = Some (TuplesDict [(''part'', PList [PInt 7])])\<rparr>] @ [])
   \<and> greedy_hitting_set_size ([[0, 1]] @ [] # [[1, 2]]) = greedy_hitting_set_size ([[0, 1]] @ [[1, 2]])
   \<and> build_cp_model ([[0, 1]] @ [] # [[1, 2]]) (Some 2) = build_cp_model ([[0, 1]] @ [[1, 2]]) (Some 2)"
proof -
  have h: "iter_mis_tuples \<lparr>tuples = Some (TuplesDict [(''orders'', PNone)])\<rparr> = Inr []"
    by (simp add: iter_mis_tuples_def)
  show ?thesis by (rule empty_witness_set_is_skipped [OF h])
qed

text \<open>
  C3, as stated, fails in both directions of the equivalence. With the single witness set
  \<open>{0, 1}\<close> the responsibility of 0 is 1 although 0 is not the sole element of a witness
  set; with the witness sets \<open>{0}\<close> and \<open>{1}\<close> the responsibility of 0 is 1/2 although 0 is
  the sole element of \<open>{0}\<close>.
\<close>

theorem responsibility_sole_element_counterexample:
  "resp_rho [[0, 1]] 2 0 = 1 \<and> set [0, 1] \<noteq> {0 :: nat}
   \<and> resp_rho [[0], [1]] 2 0 = 1 / 2 \<and> set [0] = {0 :: nat}"
proof -
  have "resp_rho [[0, 1]] 2 0 = 1" by code_simp
  moreover have "resp_rho [[0], [1]] 2 0 = 1 / 2" by code_simp
  ultimately show ?thesis by auto
qed

text \<open>
  C3, amended. For a non-empty family of non-empty witness sets over the universe \<open>{0..<n}\<close>
  and an element \<open>t\<close> of it, the responsibility \<open>1 / (1 + h*(t))\<close> of the per-answer engine
  lies in \<open>(0, 1]\<close>, and it is 1 exactly when every witness set contains \<open>t\<close>. The same holds
  for the responsibility that \<open>compute_rim_for_dc\<close> assigns to a tuple of the constraint's
  universe, with or without the cache, provided the answers \<open>OPTIMAL\<close> and \<open>FEASIBLE\<close> of
  CP-SAT are sound.
\<close>

theorem responsibility_range_and_unit:
  assumes "support_sets \<noteq> []"
    and "\<forall>S\<in>set support_sets. S \<noteq> [] \<and> set S \<subseteq> {0..<n}"
    and "t < n"
    and "cp_sound cp_solve"
    and "build_hypergraph_from_mis mis_list = Inr (edges_tk, universe)"
    and "tk \<in> set universe"
  shows "0 < resp_rho support_sets n t \<and> resp_rho support_sets n t \<le> 1
       \<and> (resp_rho support_sets n t = 1 \<longleftrightarrow> (\<forall>S\<in>set support_sets. t \<in> set S))
       \<and> (\<exists>st r. rim_responsibilities cp_solve py_hash enable_cache edges_tk universe = Inr st
              \<and> map_of (rho st) tk = Some r \<and> 0 < r \<and> r \<le> 1
              \<and> (r = 1 \<longleftrightarrow> (\<forall>e\<in>set edges_tk. tk \<in> set e)))"
proof -
  from assms(2) have ne: "\<forall>S\<in>set support_sets. S \<noteq> []" by blast
  from assms(3) have n: "0 < n" by simp
  from resp_rho_range [OF ne n, of t] rim_responsibility_value [OF assms(4,5,6)]
  show ?thesis by blast
qed

theorem responsibility_range_and_unit_witness:
  "resp_rho [[0, 1], [0, 2]] 3 0 = 1 \<and> resp_rho [[0, 1], [0, 2]] 3 1 = 1 / 2
   \<and> (\<exists>st r. rim_responsibilities timeout_solver example_hash True
                 [[(''part'', [1]), (''part'', [2])], [(''part'', [1]), (''part'', [3])]]
                 [(''part'', [1]), (''part'', [2]), (''part'', [3])] = Inr st
          \<and> map_of (rho st) (''part'', [2]) = Some r \<and> 0 < r \<and> r < 1)"
proof -
  have h1: "[[0, 1], [0, 2 :: nat]] \<noteq> []" by simp
  have h2: "\<forall>S\<in>set [[0, 1], [0, 2 :: nat]]. S \<noteq> [] \<and> set S \<subseteq> {0..<3}" by simp
  have h3: "(1::nat) < 3" by simp
  have h6: "(''part'', [2]) \<in> set [(''part'', [1]), (''part'', [2 :: int]), (''part'', [3])]"
    by simp
  have v0: "resp_rho [[0, 1], [0, 2]] 3 0 = 1" by code_simp
  have v1: "resp_rho [[0, 1], [0, 2]] 3 1 = 1 / 2" by code_simp
  from responsibility_range_and_unit [OF h1 h2 h3 timeout_solver_sound example_build h6,
      where py_hash = example_hash and enable_cache = True]
  obtain st r where
    "rim_responsibilities timeout_solver example_hash True
       [[(''part'', [1]), (''part'', [2])], [(''part'', [1]), (''part'', [3])]]
       [(''part'', [1]), (''part'', [2]), (''part'', [3])] = Inr st"
    "map_of (rho st) (''part'', [2]) = Some r" "0 < r" "r \<le> 1"
    "r = 1 \<longleftrightarrow> (\<forall>e\<in>set [[(''part'', [1]), (''part'', [2 :: int])], [(''part'', [1]), (''part'', [3])]].
                   (''part'', [2]) \<in> set e)"
    by blast
  moreover from this(5) have "r \<noteq> 1" by simp
  ultimately show ?thesis using v0 v1 by (intro conjI exI [of _ st] exI [of _ r]) simp_all
qed

text \<open>
  C4, as stated, fails: the contributions are doubles, and they do not sum to exactly \<open>m\<close>.
  For the three witness sets \<open>{1}\<close>, \<open>{1, 2}\<close>, \<open>{1, 3, 4}\<close> the responsibilities are
  \<open>1.0, 0.5, 0.5, 0.5\<close>, so \<open>denom = 2.5\<close> without any rounding and in any order of
  summation, and \<open>m = 3\<close>. The contributions \<open>(1.0 / 2.5) * 3\<close> and \<open>(0.5 / 2.5) * 3\<close> are the
  doubles \<open>1.2000000000000002\<close> and \<open>0.6000000000000001\<close>; their sum is \<open>3 + 2^-51\<close> as a
  real number, and \<open>3.0000000000000004\<close> when they are added as doubles. The solver that runs
  out of time returns the greedy bound, which is the optimum for this family.
\<close>

theorem rim_contributions_rounding_counterexample:
  "map_sum id fst (compute_rim_for_dc timeout_solver example_hash nested_mis_list True)
     = Inr [((''part'', [1]), 1351079888211149 / 1125899906842624),
            ((''part'', [2]), 1351079888211149 / 2251799813685248),
            ((''part'', [3]), 1351079888211149 / 2251799813685248),
            ((''part'', [4]), 1351079888211149 / 2251799813685248)]
   \<and> length nested_mis_list = 3
   \<and> sum_list [1351079888211149 / 1125899906842624, 1351079888211149 / 2251799813685248,
               1351079888211149 / 2251799813685248, 1351079888211149 / 2251799813685248 :: rat]
       = 3 + 1 / 2 ^ 51
   \<and> py_sum [1351079888211149 / 1125899906842624, 1351079888211149 / 2251799813685248,
             1351079888211149 / 2251799813685248, 1351079888211149 / 2251799813685248]
       = 3 + 1 / 2 ^ 51"
proof -
  have 1: "map_sum id fst (compute_rim_for_dc timeout_solver example_hash nested_mis_list True)
     = Inr [((''part'', [1]), 1351079888211149 / 1125899906842624),
            ((''part'', [2]), 1351079888211149 / 2251799813685248),
            ((''part'', [3]), 1351079888211149 / 2251799813685248),
            ((''part'', [4]), 1351079888211149 / 2251799813685248)]"
    by code_simp
  have 2: "length nested_mis_list = 3" by (simp add: nested_mis_list_def)
  have 3: "sum_list [1351079888211149 / 1125899906842624, 1351079888211149 / 2251799813685248,
               1351079888211149 / 2251799813685248, 1351079888211149 / 2251799813685248 :: rat]
       = 3 + 1 / 2 ^ 51"
    by simp
  have 4: "py_sum [1351079888211149 / 1125899906842624, 1351079888211149 / 2251799813685248,
             1351079888211149 / 2251799813685248, 1351079888211149 / 2251799813685248]
       = 3 + 1 / 2 ^ 51"
    by code_simp
  from 1 2 3 4 show ?thesis by (intro conjI)
qed

text \<open>
  C4, amended. For a constraint whose MIS list is non-empty and whose hypergraph has a
  non-empty universe, \<open>compute_rim_for_dc\<close> returns one contribution per tuple of the
  universe, for every behaviour of the solver, every hash and either cache setting. With
  \<open>m = len(mis_list)\<close> (every entry of the list counts, also an entry that yields no tuple
  and is no hyperedge), \<open>n\<close> the number of tuples of the universe and \<open>u = 2^-53\<close> the unit
  roundoff of a double, the sum of the returned contributions, taken as real numbers, lies
  between \<open>m * (1 - u)^(n + 3)\<close> and \<open>m / (1 - u)^(n + 3)\<close>: it is \<open>m\<close> up to the rounding
  of the \<open>n\<close> additions of \<open>sum\<close> and of the quotient, the conversion of \<open>m\<close> and the product
  in \<open>(rho[t] / denom) * m\<close>. At \<open>gapped_mis_list\<close>, whose second entry yields no tuple,
  \<open>m = 3\<close> although the hypergraph has two hyperedges, and the contributions
  \<open>1.5, 0.75, 0.75\<close> sum to 3.
\<close>

theorem rim_contributions_sum_to_m_up_to_rounding:
  assumes "mis_list \<noteq> []"
    and "build_hypergraph_from_mis mis_list = Inr (edges_tk, universe)"
    and "universe \<noteq> []"
  shows "\<exists>rim_contrib details.
           compute_rim_for_dc cp_solve py_hash mis_list enable_cache = Inr (rim_contrib, details)
           \<and> map fst rim_contrib = universe
           \<and> of_nat (length mis_list) * (1 - unit_roundoff) ^ (length universe + 3)
               \<le> sum_list (map snd rim_contrib)
           \<and> sum_list (map snd rim_contrib)
               \<le> of_nat (length mis_list) / (1 - unit_roundoff) ^ (length universe + 3)"
proof -
  have dist: "distinct universe" by (rule build_hypergraph_distinct [OF assms(2)])
  from rim_responsibilities_result [OF dist, of cp_solve py_hash enable_cache edges_tk]
  obtain st where
    st: "rim_responsibilities cp_solve py_hash enable_cache edges_tk universe = Inr st" and
    inv: "rim_inv st" and keys: "map fst (rho st) = universe"
    by blast
  define rs where "rs = map snd (rho st)"
  define denom where "denom = py_sum rs"
  define S where "S = sum_list rs"
  define q where "q = 1 - unit_roundoff"
  define n where "n = length universe"
  define m :: rat where "m = of_nat (length mis_list)"
  have q: "0 < q" "q \<le> 1" using unit_roundoff_range by (simp_all add: q_def)
  have qn: "0 < q ^ n" and q3: "0 < q ^ 3" using q by simp_all
  have m: "0 \<le> m" by (simp add: m_def)
  have len: "length rs = n"
  proof -
    have "length rs = length (map fst (rho st))" by (simp add: rs_def)
    then show ?thesis by (simp add: keys n_def)
  qed
  from keys assms(3) have ne: "rs \<noteq> []" by (auto simp: rs_def)
  from inv have rpos: "\<forall>x\<in>set rs. 0 < x" by (auto simp: rim_inv_def rs_def)
  then have rnn: "\<forall>x\<in>set rs. 0 \<le> x" by (auto intro: less_imp_le)
  from ne rpos have S: "0 < S" unfolding S_def by (rule sum_list_pos_nonempty)
  have dlo: "q ^ n * S \<le> denom" and dhi: "denom \<le> S / q ^ n"
    using py_sum_bounds [OF rnn] by (simp_all add: denom_def S_def q_def len)
  have "0 < q ^ n * S" using qn S by simp
  with dlo have pos: "0 < denom" by simp
  define f where "f r = double_round (double_round (r / denom) * double_round m)" for r
  define rim_contrib where "rim_contrib = map (\<lambda>p. (fst p, f (snd p))) (rho st)"
  have "distinct (map fst (rho st))" using keys dist by simp
  from collect_lookup [OF this, of f]
  have col: "collect (\<lambda>t. case map_of (rho st) t of None \<Rightarrow> Inl KeyError
                          | Some r \<Rightarrow> Inr (t, f r)) universe = Inr rim_contrib"
    by (simp add: keys rim_contrib_def)
  have res: "compute_rim_for_dc cp_solve py_hash mis_list enable_cache
               = Inr (rim_contrib, gamma_details st)"
  proof -
    have pos': "\<not> py_sum (map snd (rho st)) \<le> 0" using pos by (simp add: denom_def rs_def)
    show ?thesis
      using assms(1,2) st pos' col [unfolded f_def denom_def rs_def m_def]
      by (simp add: compute_rim_for_dc_def Let_def)
  qed
  have k: "map fst rim_contrib = universe" by (simp add: rim_contrib_def keys [symmetric] comp_def)
  have vals: "map snd rim_contrib = map f rs" by (simp add: rim_contrib_def rs_def comp_def)
  have each: "q ^ 3 * (m / denom) * r \<le> f r \<and> f r \<le> m / denom / q ^ 3 * r" if "r \<in> set rs" for r
  proof -
    from that rpos pos have x: "0 \<le> r / denom" by (simp add: less_imp_le)
    from double_product_bounds [OF x m]
    have "q ^ 3 * (r / denom * m) \<le> f r" "f r \<le> r / denom * m / q ^ 3"
      by (simp_all add: f_def q_def)
    then show ?thesis by (simp add: mult.commute mult.left_commute)
  qed
  then have "\<forall>r\<in>set rs. q ^ 3 * (m / denom) * r \<le> f r \<and> f r \<le> m / denom / q ^ 3 * r" by blast
  from sum_list_map_bounds [OF this]
  have lo: "q ^ 3 * (m / denom) * S \<le> sum_list (map f rs)"
    and hi: "sum_list (map f rs) \<le> m / denom / q ^ 3 * S"
    by (simp_all add: S_def)
  have ratio_lo: "q ^ n \<le> S / denom"
  proof -
    from dhi qn have "denom * q ^ n \<le> S" by (simp add: pos_le_divide_eq)
    then show ?thesis using pos by (simp add: pos_le_divide_eq mult.commute)
  qed
  have ratio_hi: "S / denom \<le> 1 / q ^ n"
  proof -
    from dlo have "S * q ^ n \<le> denom" by (simp add: mult.commute)
    then show ?thesis using pos qn by (simp add: field_simps)
  qed
  have "m * q ^ (n + 3) = q ^ 3 * m * q ^ n" by (simp add: power_add mult.commute mult.left_commute)
  also have "\<dots> \<le> q ^ 3 * m * (S / denom)"
    using ratio_lo q3 m by (intro mult_left_mono) simp_all
  also have "\<dots> = q ^ 3 * (m / denom) * S" by simp
  also note lo
  finally have lower: "m * q ^ (n + 3) \<le> sum_list (map f rs)" .
  note hi
  also have "m / denom / q ^ 3 * S = m / q ^ 3 * (S / denom)" by simp
  also have "\<dots> \<le> m / q ^ 3 * (1 / q ^ n)"
    using ratio_hi q3 m by (intro mult_left_mono) simp_all
  also have "\<dots> = m / q ^ (n + 3)" by (simp add: power_add mult.commute)
  finally have upper: "sum_list (map f rs) \<le> m / q ^ (n + 3)" .
  from res k lower upper show ?thesis
    unfolding vals [symmetric] m_def q_def n_def by blast
qed

theorem rim_contributions_sum_to_m_up_to_rounding_witness:
  "build_hypergraph_from_mis gapped_mis_list
     = Inr ([[(''part'', [1]), (''part'', [2])], [(''part'', [1]), (''part'', [3])]],
            [(''part'', [1]), (''part'', [2]), (''part'', [3])])
   \<and> map_sum id fst (compute_rim_for_dc timeout_solver example_hash gapped_mis_list True)
       = Inr [((''part'', [1]), 3 / 2), ((''part'', [2]), 3 / 4), ((''part'', [3]), 3 / 4)]
   \<and> (\<exists>rim_contrib details.
         compute_rim_for_dc timeout_solver example_hash gapped_mis_list True
           = Inr (rim_contrib, details)
         \<and> map fst rim_contrib = [(''part'', [1]), (''part'', [2]), (''part'', [3])]
         \<and> 3 * (1 - unit_roundoff) ^ 6 \<le> sum_list (map snd rim_contrib)
         \<and> sum_list (map snd rim_contrib) \<le> 3 / (1 - unit_roundoff) ^ 6)"
proof -
  have h1: "gapped_mis_list \<noteq> []" by (simp add: gapped_mis_list_def)
  have h2: "build_hypergraph_from_mis gapped_mis_list
     = Inr ([[(''part'', [1]), (''part'', [2])], [(''part'', [1]), (''part'', [3])]],
            [(''part'', [1]), (''part'', [2]), (''part'', [3])])"
    by code_simp
  have h3: "[(''part'', [1 :: int]), (''part'', [2]), (''part'', [3])] \<noteq> []" by simp
  have len: "length gapped_mis_list = 3" by (simp add: gapped_mis_list_def)
  have v: "map_sum id fst (compute_rim_for_dc timeout_solver example_hash gapped_mis_list True)
     = Inr [((''part'', [1]), 3 / 2), ((''part'', [2]), 3 / 4), ((''part'', [3]), 3 / 4)]"
    by code_simp
  from rim_contributions_sum_to_m_up_to_rounding [OF h1 h2 h3,
      of timeout_solver example_hash True]
  have "\<exists>rim_contrib details.
         compute_rim_for_dc timeout_solver example_hash gapped_mis_list True
           = Inr (rim_contrib, details)
         \<and> map fst rim_contrib = [(''part'', [1]), (''part'', [2]), (''part'', [3])]
         \<and> 3 * (1 - unit_roundoff) ^ 6 \<le> sum_list (map snd rim_contrib)
         \<and> sum_list (map snd rim_contrib) \<le> 3 / (1 - unit_roundoff) ^ 6"
    by (simp add: len)
  with h2 v show ?thesis by (intro conjI)
qed


section \<open>Provenance-sum aggregator (compute\_icqa\_prov.py)\<close>

text \<open>
  The data frames are lists of rows. A row of the support-set frame names an answer, a
  witness set of that answer (\<open>support_id\<close>) and one tuple of the witness set; a row of the
  tuple-measure frame gives one measure value of one tuple. The columns \<open>relation\<close>, \<open>pk\<close> and
  \<open>measure\<close> are strings after \<open>astype(str)\<close> and \<open>str.upper()\<close>, so none of them is null.
\<close>

record support_row =
  s_answer_id :: int
  s_answervalue :: string
  s_support_id :: int
  s_rel :: string
  s_pk :: string

record measure_row =
  m_relation :: string
  m_pk :: string
  m_measure :: string
  m_value :: rat

text \<open>One output row: the dict \<open>out_row\<close>, its entries \<open>icqa_prov_<m>\<close> keyed by \<open>m\<close>.\<close>

record prov_row =
  p_answer_id :: int
  p_answervalue :: string
  p_scores :: "(string \<times> npfloat) list"

definition MEASURES :: "string list" where
  "MEASURES = [''CBM'', ''CIM'', ''PIM'', ''RIM'']"

text \<open>\<open>DataFrame.drop_duplicates\<close> keeps the first of equal rows.\<close>

definition drop_duplicates :: "'a list \<Rightarrow> 'a list" where
  "drop_duplicates xs = rev (remdups (rev xs))"

text \<open>
  \<open>support_df.merge(tm_db, on=["relation", "pk"], how="left")\<close> restricted to the rows whose
  \<open>measure\<close> is not null: every support row paired with every measure row of its tuple.
\<close>

definition measured_rows :: "support_row list \<Rightarrow> measure_row list \<Rightarrow> (support_row \<times> measure_row) list" where
  "measured_rows support_df tm_db =
     concat (map (\<lambda>s. map (\<lambda>t. (s, t))
                          (filter (\<lambda>t. m_relation t = s_rel s \<and> m_pk t = s_pk s) tm_db))
               support_df)"

text \<open>One group of \<open>groupby(["answer_id", "answervalue", "measure"])\<close> and its \<open>sum\<close>.\<close>

definition group_rows ::
  "(support_row \<times> measure_row) list \<Rightarrow> int \<Rightarrow> string \<Rightarrow> string \<Rightarrow> (support_row \<times> measure_row) list" where
  "group_rows measured a v m =
     filter (\<lambda>(s, t). s_answer_id s = a \<and> s_answervalue s = v \<and> m_measure t = m) measured"

definition group_sum :: "(support_row \<times> measure_row) list \<Rightarrow> int \<Rightarrow> string \<Rightarrow> string \<Rightarrow> rat" where
  "group_sum measured a v m = sum_list (map (\<lambda>(s, t). m_value t) (group_rows measured a v m))"

text \<open>
  A cell of the pivot table \<open>sum_wide\<close>, read by \<open>float(row[m])\<close>: the sum of the group, \<open>nan\<close>
  where the answer has no row of a measure that is a column, and \<open>0.0\<close> in a column that
  \<open>sum_wide[m] = 0.0\<close> added because no row of the query has the measure.
\<close>

definition pivot_cell :: "(support_row \<times> measure_row) list \<Rightarrow> int \<Rightarrow> string \<Rightarrow> string \<Rightarrow> npfloat" where
  "pivot_cell measured a v m =
     (if m \<in> set (map (\<lambda>(s, t). m_measure t) measured)
      then (if group_rows measured a v m \<noteq> [] then Fin (group_sum measured a v m) else NaN)
      else Fin 0)"

text \<open>
  The body of \<open>for qname in QUERIES\<close> in \<open>main\<close>, for one loaded \<open>support_df\<close>: the rows it
  appends to \<open>all_rows\<close>. In the branch \<open>measured.empty\<close> the loop over \<open>MEASURES\<close> assigns
  \<open>icqa_val = 0.0\<close> and stores nothing in \<open>out_row\<close>.
\<close>

definition prov_query :: "measure_row list \<Rightarrow> support_row list \<Rightarrow> prov_row list" where
  "prov_query tm_db support_df =
     (let measured = measured_rows support_df tm_db
      in if measured = [] then
           map (\<lambda>(a, v). \<lparr>p_answer_id = a, p_answervalue = v, p_scores = []\<rparr>)
             (drop_duplicates (map (\<lambda>s. (s_answer_id s, s_answervalue s)) support_df))
         else
           map (\<lambda>(a, v). \<lparr>p_answer_id = a, p_answervalue = v,
                          p_scores = map (\<lambda>m. (m, pivot_cell measured a v m)) MEASURES\<rparr>)
             (sort (remdups (map (\<lambda>(s, t). (s_answer_id s, s_answervalue s)) measured))))"

text \<open>The score that the output reports for an answer and a measure, if any.\<close>

definition prov_score :: "prov_row list \<Rightarrow> int \<Rightarrow> string \<Rightarrow> string \<Rightarrow> npfloat option" where
  "prov_score rows a v m =
     (case find (\<lambda>r. p_answer_id r = a \<and> p_answervalue r = v) rows of
        None \<Rightarrow> None
      | Some r \<Rightarrow> map_of (p_scores r) m)"

definition example_tm :: "measure_row list" where
  "example_tm =
     [\<lparr>m_relation = ''part'', m_pk = ''7'', m_measure = ''CBM'', m_value = 2\<rparr>,
      \<lparr>m_relation = ''part'', m_pk = ''7'', m_measure = ''CIM'', m_value = 3\<rparr>]"

definition unmatched_support :: "support_row list" where
  "unmatched_support =
     [\<lparr>s_answer_id = 1, s_answervalue = ''x'', s_support_id = 1, s_rel = ''orders'', s_pk = ''5''\<rparr>]"

definition example_support :: "support_row list" where
  "example_support =
     [\<lparr>s_answer_id = 1, s_answervalue = ''x'', s_support_id = 1, s_rel = ''part'', s_pk = ''7''\<rparr>,
      \<lparr>s_answer_id = 1, s_answervalue = ''x'', s_support_id = 2, s_rel = ''part'', s_pk = ''7''\<rparr>,
      \<lparr>s_answer_id = 1, s_answervalue = ''x'', s_support_id = 3, s_rel = ''part'', s_pk = ''7''\<rparr>,
      \<lparr>s_answer_id = 2, s_answervalue = ''y'', s_support_id = 1, s_rel = ''orders'', s_pk = ''5''\<rparr>]"

























text \<open>
  C7 fails for the provenance-sum aggregator. When no tuple of a query's answers matches a
  row of the measure table, the row written for an answer carries no score at all: the loop
  that should store \<open>0.0\<close> only assigns a local variable. And when other answers of the query
  have matches, an answer without any match gets no row.
\<close>

theorem prov_unmatched_answer_reports_no_score:
  "prov_query example_tm unmatched_support
     = [\<lparr>p_answer_id = 1, p_answervalue = ''x'', p_scores = []\<rparr>]
   \<and> prov_score (prov_query example_tm unmatched_support) 1 ''x'' ''CBM'' = None
   \<and> prov_score (prov_query example_tm example_support) 2 ''y'' ''CBM'' = None"
  by code_simp

end
